theory Spec2Isabelle
  imports Main "HOL-Library.AList"
begin


section \<open>Event envelopes and their JSON payloads\<close>

text \<open>
  The payload of an \<open>SSEEvent\<close> is \<open>data: any\<close>; the manager only hands it to
  \<open>JSON.stringify\<close>. The payloads modelled here are the JSON values built from
  \<open>null\<close>, booleans, integers, strings, arrays and objects (an object keeps its keys
  in insertion order, as \<open>JSON.stringify\<close> prints them).
\<close>

datatype json =
    JNull
  | JBool bool
  | JNum int
  | JStr string
  | JArr "json list"
  | JObj "(string \<times> json) list"

record SSEEvent =
  event :: string
  data :: json

text \<open>
  \<open>JSON.stringify\<close> is a built-in of the language, not code of the repository. It is
  modelled on the values above: no white space, \<open>,\<close> between members, \<open>:\<close> between a
  key and its value, strings in double quotes with the quote, the backslash and the
  control characters escaped.
\<close>

definition hex_digit :: "nat \<Rightarrow> char" where
  "hex_digit n = ''0123456789abcdef'' ! (n mod 16)"

definition escape_char :: "char \<Rightarrow> string" where
  "escape_char c =
     (if c = CHR 0x22 then [CHR 0x5C, CHR 0x22]
      else if c = CHR 0x5C then [CHR 0x5C, CHR 0x5C]
      else if c = CHR 0x08 then [CHR 0x5C, CHR ''b'']
      else if c = CHR 0x0C then [CHR 0x5C, CHR ''f'']
      else if c = CHR 0x0A then [CHR 0x5C, CHR ''n'']
      else if c = CHR 0x0D then [CHR 0x5C, CHR ''r'']
      else if c = CHR 0x09 then [CHR 0x5C, CHR ''t'']
      else if (of_char c :: nat) < 32
        then [CHR 0x5C, CHR ''u'', CHR ''0'', CHR ''0'',
              hex_digit (of_char c div 16), hex_digit (of_char c)]
      else [c])"

definition quote :: "string \<Rightarrow> string" where
  "quote s = [CHR 0x22] @ concat (map escape_char s) @ [CHR 0x22]"

fun digits :: "nat \<Rightarrow> string" where
  "digits n =
     (if n < 10 then [''0123456789'' ! n]
      else digits (n div 10) @ [''0123456789'' ! (n mod 10)])"

definition show_int :: "int \<Rightarrow> string" where
  "show_int i = (if i < 0 then ''-'' @ digits (nat (- i)) else digits (nat i))"

fun join :: "string \<Rightarrow> string list \<Rightarrow> string" where
  "join sep [] = []"
| "join sep [x] = x"
| "join sep (x # y # ys) = x @ sep @ join sep (y # ys)"

fun JSON_stringify :: "json \<Rightarrow> string" where
  "JSON_stringify JNull = ''null''"
| "JSON_stringify (JBool b) = (if b then ''true'' else ''false'')"
| "JSON_stringify (JNum i) = show_int i"
| "JSON_stringify (JStr s) = quote s"
| "JSON_stringify (JArr vs) = ''['' @ join '','' (map JSON_stringify vs) @ '']''"
| "JSON_stringify (JObj kvs) =
     ''{'' @ join '','' (map (\<lambda>kv. quote (fst kv) @ '':'' @ JSON_stringify (snd kv)) kvs) @ ''}''"

section \<open>Client connections\<close>

text \<open>
  \<open>SSEClient.res\<close> is an object with two methods, \<open>write(chunk)\<close> and \<open>end()\<close>.
  The manager never looks inside it, so it is modelled by what the manager can observe:
  the identity \<open>conn\<close> of the connection, which of the two shapes it has
  (\<open>isStreamRes\<close>), and whether a call of \<open>write\<close> or of \<open>end\<close> throws (\<open>None\<close>: the
  call returns; \<open>Some e\<close>: it throws a value that prints as \<open>e\<close>).
\<close>

record SSERes =
  conn :: nat
  isStreamRes :: bool
  write_throws :: "string option"
  end_throws :: "string option"

record SSEClient =
  id_client :: string
  res :: SSERes
  sessionToken :: "string option"
  lastPing :: int
  subscriptions :: "string list option"
  userAgent :: "string option"
  ipAddress :: "string option"

text \<open>The truthiness test \<open>if (x)\<close> on an optional string: absent and empty are falsy.\<close>

definition truthy :: "string option \<Rightarrow> bool" where
  "truthy x = (case x of None \<Rightarrow> False | Some s \<Rightarrow> s \<noteq> [])"

text \<open>\<open>x || "anonymous"\<close> on an optional string.\<close>

definition or_else :: "string option \<Rightarrow> string \<Rightarrow> string" where
  "or_else x d = (case x of None \<Rightarrow> d | Some s \<Rightarrow> (if s = [] then d else s))"

section \<open>The durable store\<close>

text \<open>
  Modelled from the spec: the Durable Store (the Prisma client \<open>db\<close> of \<open>@/lib/db\<close>)
  is not part of the sources; the spec describes it as an external collaborator with
  upsert, bulk update, delete-by-filter and query operations on Session Records (key
  \<open>clientId\<close>) and Subscription Records (key: the triple \<open>sessionToken\<close>, \<open>eventName\<close>,
  \<open>clientId\<close>), each individually atomic. The columns are those of the migrations;
  \<open>id\<close>, \<open>username\<close>, \<open>createdAt\<close> and \<open>updatedAt\<close> are never written by the manager
  and are left out.
\<close>

datatype status = Online | Offline

record SSESession =
  sess_clientId :: string
  sess_sessionToken :: "string option"
  sess_status :: status
  sess_lastSeen :: int
  sess_lastPing :: int
  sess_userAgent :: "string option"
  sess_ipAddress :: "string option"

record SSESubscription =
  sub_sessionToken :: string
  sub_eventName :: string
  sub_clientId :: "string option"

record store =
  sSESession :: "SSESession list"
  sSESubscription :: "SSESubscription list"

text \<open>\<open>updateMany({where, data})\<close>: every row that matches is rewritten.\<close>

definition updateMany :: "('r \<Rightarrow> bool) \<Rightarrow> ('r \<Rightarrow> 'r) \<Rightarrow> 'r list \<Rightarrow> 'r list" where
  "updateMany P f rows = map (\<lambda>r. if P r then f r else r) rows"

text \<open>\<open>deleteMany({where})\<close>: every row that matches is removed.\<close>

definition deleteMany :: "('r \<Rightarrow> bool) \<Rightarrow> 'r list \<Rightarrow> 'r list" where
  "deleteMany P rows = filter (\<lambda>r. \<not> P r) rows"

text \<open>\<open>findMany({where})\<close>: the rows that match, in table order.\<close>

definition findMany :: "('r \<Rightarrow> bool) \<Rightarrow> 'r list \<Rightarrow> 'r list" where
  "findMany P rows = filter P rows"

text \<open>
  \<open>upsert({where, update, create})\<close> on a unique key: the row with the key is
  updated when there is one, a row is created otherwise.
\<close>

definition upsert :: "('r \<Rightarrow> bool) \<Rightarrow> ('r \<Rightarrow> 'r) \<Rightarrow> 'r \<Rightarrow> 'r list \<Rightarrow> 'r list" where
  "upsert key upd new rows =
     (if list_ex key rows then updateMany key upd rows else rows @ [new])"

text \<open>
  In the \<open>update\<close> part of a Prisma call a field given as \<open>undefined\<close> is left as it
  is; in the \<open>create\<close> part it is stored as null.
\<close>

definition set_unless_undefined :: "'a option \<Rightarrow> 'a option \<Rightarrow> 'a option" where
  "set_unless_undefined new old = (case new of None \<Rightarrow> old | Some v \<Rightarrow> Some v)"

section \<open>The manager's state\<close>

text \<open>
  What the manager does to the outside world is recorded: \<open>effects\<close> lists, in order,
  every call of \<open>write\<close> and of \<open>end\<close> it makes on a connection, \<open>logs\<close> every line
  it prints. \<open>clients\<close> is the \<open>Map\<close> of the class, an association list in insertion
  order. \<open>faults\<close> is the store's behaviour to come: the n-th call of the store takes
  the n-th entry, \<open>Some e\<close> making the call fail with \<open>e\<close>; with no entry left the
  call succeeds.
\<close>

datatype effect = Write nat string | End nat

record manager =
  clients :: "(string \<times> SSEClient) list"
  db :: store
  faults :: "string option list"
  effects :: "effect list"
  logs :: "string list"

definition initial :: manager where
  "initial = \<lparr>clients = [], db = \<lparr>sSESession = [], sSESubscription = []\<rparr>,
     faults = [], effects = [], logs = []\<rparr>"

text \<open>
  A method either returns or throws (an \<open>async\<close> method: its promise fulfils or
  rejects); in both cases the state it leaves is kept.
\<close>

datatype 'a outcome = Returned 'a | Threw string

type_synonym 'a act = "manager \<Rightarrow> 'a outcome \<times> manager"

definition bind_act :: "'a act \<Rightarrow> ('a \<Rightarrow> 'b act) \<Rightarrow> 'b act" where
  "bind_act f g m = (case f m of (Returned x, m') \<Rightarrow> g x m' | (Threw e, m') \<Rightarrow> (Threw e, m'))"

fun seq :: "unit act list \<Rightarrow> unit act" where
  "seq [] m = (Returned (), m)"
| "seq (a # as) m = (case a m of (Returned _, m') \<Rightarrow> seq as m' | (Threw e, m') \<Rightarrow> (Threw e, m'))"

definition try_catch :: "unit act \<Rightarrow> (string \<Rightarrow> unit act) \<Rightarrow> unit act" where
  "try_catch body handler m =
     (case body m of (Returned _, m') \<Rightarrow> (Returned (), m') | (Threw e, m') \<Rightarrow> handler e m')"

definition throw :: "string \<Rightarrow> unit act" where
  "throw e m = (Threw e, m)"

definition if_then :: "bool \<Rightarrow> unit act \<Rightarrow> unit act" where
  "if_then b a m = (if b then a m else (Returned (), m))"

fun for_each :: "'a list \<Rightarrow> ('a \<Rightarrow> unit act) \<Rightarrow> unit act" where
  "for_each [] body m = (Returned (), m)"
| "for_each (x # xs) body m =
     (case body x m of (Returned _, m') \<Rightarrow> for_each xs body m' | (Threw e, m') \<Rightarrow> (Threw e, m'))"

text \<open>
  \<open>for (const [id, c] of this.clients.entries())\<close>: the iterator of a \<open>Map\<close> is live,
  an entry deleted before it is reached is not visited. The bodies below delete no entry
  but the one being visited and add none, so the keys to visit are those present when the
  loop starts, each looked up again when it is reached.
\<close>

definition for_clients :: "(string \<Rightarrow> SSEClient \<Rightarrow> unit act) \<Rightarrow> unit act" where
  "for_clients body m =
     for_each (map fst (clients m))
       (\<lambda>k m'. case map_of (clients m') k of None \<Rightarrow> (Returned (), m') | Some c \<Rightarrow> body k c m') m"

text \<open>An assignment to a field of the client object stored under a key.\<close>

definition modify_client :: "string \<Rightarrow> (SSEClient \<Rightarrow> SSEClient) \<Rightarrow> unit act" where
  "modify_client k f m =
     (Returned (), m\<lparr>clients := map (\<lambda>(k', c). if k' = k then (k', f c) else (k', c)) (clients m)\<rparr>)"

definition clients_set :: "string \<Rightarrow> SSEClient \<Rightarrow> unit act" where
  "clients_set k c m = (Returned (), m\<lparr>clients := AList.update k c (clients m)\<rparr>)"

definition clients_delete :: "string \<Rightarrow> unit act" where
  "clients_delete k m = (Returned (), m\<lparr>clients := AList.delete k (clients m)\<rparr>)"

text \<open>A call of the store: it fails when the store's next scheduled behaviour is a failure.\<close>

definition db_call :: "(store \<Rightarrow> 'a \<times> store) \<Rightarrow> 'a act" where
  "db_call q m =
     (case faults m of
        Some e # fs \<Rightarrow> (Threw e, m\<lparr>faults := fs\<rparr>)
      | _ \<Rightarrow> (Returned (fst (q (db m))), m\<lparr>db := snd (q (db m)), faults := tl (faults m)\<rparr>))"

definition db_write :: "(store \<Rightarrow> store) \<Rightarrow> unit act" where
  "db_write f = db_call (\<lambda>d. ((), f d))"

definition res_write :: "SSERes \<Rightarrow> string \<Rightarrow> unit act" where
  "res_write r chunk m =
     (case write_throws r of
        None \<Rightarrow> (Returned (), m\<lparr>effects := effects m @ [Write (conn r) chunk]\<rparr>)
      | Some e \<Rightarrow> (Threw e, m\<lparr>effects := effects m @ [Write (conn r) chunk]\<rparr>))"

definition res_end :: "SSERes \<Rightarrow> unit act" where
  "res_end r m =
     (case end_throws r of
        None \<Rightarrow> (Returned (), m\<lparr>effects := effects m @ [End (conn r)]\<rparr>)
      | Some e \<Rightarrow> (Threw e, m\<lparr>effects := effects m @ [End (conn r)]\<rparr>))"

section \<open>The class \<open>SSEManager\<close>\<close>

definition HEARTBEAT_MS :: int where
  "HEARTBEAT_MS = 25000"

definition SESSION_CLEANUP_MS :: int where
  "SESSION_CLEANUP_MS = 60000"


definition thirty_seconds :: int where
  "thirty_seconds = 30 * 1000"

definition log :: "string \<Rightarrow> unit act" where
  "log msg m = (Returned (), m\<lparr>logs := logs m @ [''[SSEManager] '' @ msg]\<rparr>)"

subsection \<open>The private store helpers\<close>

text \<open>
  \<open>new Date()\<close> and \<open>Date.now()\<close> are read from the parameter \<open>now\<close>, the time in
  milliseconds at which the method runs.
\<close>

definition updateSession :: "int \<Rightarrow> SSEClient \<Rightarrow> unit act" where
  "updateSession now client =
     try_catch
       (db_write (\<lambda>d. d\<lparr>sSESession :=
          upsert (\<lambda>r. sess_clientId r = id_client client)
            (\<lambda>r. r\<lparr>sess_sessionToken := set_unless_undefined (sessionToken client) (sess_sessionToken r),
                    sess_lastSeen := now,
                    sess_lastPing := now,
                    sess_status := Online,
                    sess_userAgent := set_unless_undefined (userAgent client) (sess_userAgent r),
                    sess_ipAddress := set_unless_undefined (ipAddress client) (sess_ipAddress r)\<rparr>)
            \<lparr>sess_clientId = id_client client,
             sess_sessionToken = sessionToken client,
             sess_status = Online,
             sess_lastSeen = now,
             sess_lastPing = now,
             sess_userAgent = userAgent client,
             sess_ipAddress = ipAddress client\<rparr>
            (sSESession d)\<rparr>))
       (\<lambda>err. log (''Error updating session: '' @ err))"

definition updateSessionPing :: "int \<Rightarrow> string \<Rightarrow> unit act" where
  "updateSessionPing now clientId =
     try_catch
       (db_write (\<lambda>d. d\<lparr>sSESession :=
          updateMany (\<lambda>r. sess_clientId r = clientId)
            (\<lambda>r. r\<lparr>sess_lastPing := now, sess_status := Online\<rparr>) (sSESession d)\<rparr>))
       (\<lambda>err. log (''Error updating session ping: '' @ err))"

definition markSessionOffline :: "int \<Rightarrow> string \<Rightarrow> unit act" where
  "markSessionOffline now clientId =
     try_catch
       (db_write (\<lambda>d. d\<lparr>sSESession :=
          updateMany (\<lambda>r. sess_clientId r = clientId)
            (\<lambda>r. r\<lparr>sess_status := Offline, sess_lastSeen := now\<rparr>) (sSESession d)\<rparr>))
       (\<lambda>err. log (''Error marking session offline: '' @ err))"

definition markSessionOfflineBySessionToken :: "int \<Rightarrow> string \<Rightarrow> unit act" where
  "markSessionOfflineBySessionToken now token =
     try_catch
       (db_write (\<lambda>d. d\<lparr>sSESession :=
          updateMany (\<lambda>r. sess_sessionToken r = Some token)
            (\<lambda>r. r\<lparr>sess_status := Offline, sess_lastSeen := now\<rparr>) (sSESession d)\<rparr>))
       (\<lambda>err. log (''Error marking session offline by sessionToken: '' @ err))"

subsection \<open>Adding and removing clients\<close>

definition removeClient :: "int \<Rightarrow> string \<Rightarrow> unit act" where
  "removeClient now clientId m =
     (case map_of (clients m) clientId of
        None \<Rightarrow> (Returned (), m)
      | Some client \<Rightarrow>
          seq [try_catch (res_end (res client))
                 (\<lambda>err. log (''Error ending response for client '' @ clientId @ '': '' @ err)),
               (case sessionToken client of
                  None \<Rightarrow> markSessionOffline now clientId
                | Some token \<Rightarrow>
                    if token \<noteq> [] then markSessionOfflineBySessionToken now token
                    else markSessionOffline now clientId),
               clients_delete clientId,
               log (''Client disconnected: '' @ clientId)] m)"

definition addClient :: "int \<Rightarrow> SSEClient \<Rightarrow> unit act" where
  "addClient now client =
     seq [if_then (truthy (sessionToken client))
            (for_clients (\<lambda>k c.
               if_then (sessionToken c = sessionToken client) (removeClient now k))),
          clients_set (id_client client) client,
          updateSession now client,
          log (''Client connected: '' @ id_client client @ '' (Session: ''
                 @ or_else (sessionToken client) ''anonymous'' @ '')'')]"

subsection \<open>Sending\<close>

definition send :: "SSERes \<Rightarrow> SSEEvent \<Rightarrow> unit act" where
  "send r ev =
     try_catch
       (let chunk = ''event: '' @ event ev @ [CHR 0x0A] @ ''data: '' @ JSON_stringify (data ev)
                      @ [CHR 0x0A, CHR 0x0A]
        in if isStreamRes r
           then seq [res_write r chunk,
                     log (''Sent event '' @ [CHR 0x27] @ event ev @ [CHR 0x27] @ '' to stream client'')]
           else seq [res_write r chunk,
                     log (''Sent event '' @ [CHR 0x27] @ event ev @ [CHR 0x27] @ '' to Node client'')])
       (\<lambda>err. log (''Error sending event to client: '' @ err))"

definition sendEventToClient :: "string \<Rightarrow> SSEEvent \<Rightarrow> unit act" where
  "sendEventToClient clientId ev m =
     (case map_of (clients m) clientId of
        None \<Rightarrow> (Returned (), m)
      | Some client \<Rightarrow> send (res client) ev m)"

definition sendEventToUser :: "string \<Rightarrow> SSEEvent \<Rightarrow> unit act" where
  "sendEventToUser token ev =
     for_clients (\<lambda>k client. if_then (sessionToken client = Some token) (send (res client) ev))"

definition sendEventToSubscribers :: "string \<Rightarrow> SSEEvent \<Rightarrow> unit act" where
  "sendEventToSubscribers eventName ev =
     bind_act
       (db_call (\<lambda>d. (findMany (\<lambda>s. sub_eventName s = eventName) (sSESubscription d), d)))
       (\<lambda>subs. for_each subs (\<lambda>subscription.
          case sub_clientId subscription of
            None \<Rightarrow> sendEventToUser (sub_sessionToken subscription) ev
          | Some clientId \<Rightarrow>
              if clientId \<noteq> [] then sendEventToClient clientId ev
              else sendEventToUser (sub_sessionToken subscription) ev))"

definition broadcast :: "SSEEvent \<Rightarrow> unit act" where
  "broadcast ev = for_clients (\<lambda>k client. send (res client) ev)"

subsection \<open>Subscriptions\<close>

text \<open>
  The parameter \<open>clientId\<close> of \<open>subscribeToEvent\<close> and of \<open>unsubscribeFromEvent\<close> is
  not read by either body: the key of the upsert and the row it creates take
  \<open>clientId: sessionToken\<close>.
\<close>

definition subscribeToEvent :: "string \<Rightarrow> string \<Rightarrow> string option \<Rightarrow> unit act" where
  "subscribeToEvent token eventName clientId =
     try_catch
       (seq [db_write (\<lambda>d. d\<lparr>sSESubscription :=
               upsert (\<lambda>s. sub_sessionToken s = token \<and> sub_eventName s = eventName
                            \<and> sub_clientId s = Some token)
                 (\<lambda>s. s)
                 \<lparr>sub_sessionToken = token, sub_eventName = eventName, sub_clientId = Some token\<rparr>
                 (sSESubscription d)\<rparr>),
             for_clients (\<lambda>k client.
               if_then (sessionToken client = Some token)
                 (modify_client k (\<lambda>c.
                    let subs = (case subscriptions c of None \<Rightarrow> [] | Some xs \<Rightarrow> xs)
                    in c\<lparr>subscriptions :=
                           Some (if eventName \<in> set subs then subs else subs @ [eventName])\<rparr>))),
             log (''Session '' @ token @ '' subscribed to event: '' @ eventName)])
       (\<lambda>err. log (''Error subscribing to event: '' @ err))"

definition unsubscribeFromEvent :: "string \<Rightarrow> string \<Rightarrow> string option \<Rightarrow> unit act" where
  "unsubscribeFromEvent token eventName clientId =
     try_catch
       (seq [db_write (\<lambda>d. d\<lparr>sSESubscription :=
               deleteMany (\<lambda>s. sub_sessionToken s = token \<and> sub_eventName s = eventName)
                 (sSESubscription d)\<rparr>),
             for_clients (\<lambda>k client.
               if_then (sessionToken client = Some token \<and> subscriptions client \<noteq> None)
                 (modify_client k (\<lambda>c.
                    c\<lparr>subscriptions := map_option (filter (\<lambda>sub. sub \<noteq> eventName)) (subscriptions c)\<rparr>))),
             log (''Session '' @ token @ '' unsubscribed from event: '' @ eventName)])
       (\<lambda>err. log (''Error unsubscribing from event: '' @ err))"

text \<open>
  The last statement of the \<open>try\<close> block of \<open>unsubscribeFromAllEvents\<close> builds its
  message from \<open>eventName\<close>, a name that is bound nowhere in that method: evaluating it
  throws a \<open>ReferenceError\<close>, which the \<open>catch\<close> of the method receives.
\<close>

definition unsubscribeFromAllEvents :: "string \<Rightarrow> unit act" where
  "unsubscribeFromAllEvents token =
     try_catch
       (seq [db_write (\<lambda>d. d\<lparr>sSESubscription :=
               deleteMany (\<lambda>s. sub_sessionToken s = token) (sSESubscription d)\<rparr>),
             for_clients (\<lambda>k client.
               if_then (sessionToken client = Some token \<and> subscriptions client \<noteq> None)
                 (modify_client k (\<lambda>c. c\<lparr>subscriptions := Some []\<rparr>))),
             throw ''ReferenceError: eventName is not defined''])
       (\<lambda>err. log (''Error unsubscribing from event: '' @ err))"

subsection \<open>The two timers\<close>

text \<open>One run of the callback of \<open>startHeartbeat\<close>, at time \<open>now\<close>.\<close>

definition heartbeat :: "int \<Rightarrow> unit act" where
  "heartbeat now =
     for_clients (\<lambda>k client.
       try_catch
         (seq [res_write (res client) (''event: ping'' @ [CHR 0x0A] @ ''data: {}'' @ [CHR 0x0A, CHR 0x0A]),
               modify_client k (\<lambda>c. c\<lparr>lastPing := now\<rparr>),
               updateSessionPing now k])
         (\<lambda>err. seq [log (''Error pinging client '' @ k @ '': '' @ err),
                      removeClient now k]))"

text \<open>
  One run of the callback of \<open>startSessionCleanup\<close>, at time \<open>now\<close>. The call of
  \<open>removeClient\<close> is not awaited there; the run is taken to its end, with that call
  completed.
\<close>

definition sessionCleanup :: "int \<Rightarrow> unit act" where
  "sessionCleanup now =
     try_catch
       (seq [db_write (\<lambda>d. d\<lparr>sSESession :=
               updateMany (\<lambda>r. sess_lastPing r < now - thirty_seconds \<and> sess_status r = Online)
                 (\<lambda>r. r\<lparr>sess_status := Offline\<rparr>) (sSESession d)\<rparr>),
             for_clients (\<lambda>clientId client.
               if_then (lastPing client < now - thirty_seconds)
                 (seq [log (''Client '' @ clientId @ '' hasn'' @ [CHR 0x27]
                            @ ''t pinged recently, marking as offline''),
                       markSessionOffline now clientId,
                       removeClient now clientId]))])
       (\<lambda>err. log (''Error in session cleanup: '' @ err))"

text \<open>
  \<open>cleanup()\<close>; the two \<open>clearInterval\<close> calls stop the timers, whose runs are
  steps taken from outside in this model.
\<close>

definition cleanup :: "unit act" where
  "cleanup =
     seq [for_clients (\<lambda>k client.
            try_catch (res_end (res client))
              (\<lambda>err. log (''Error ending response for client '' @ id_client client @ '': '' @ err))),
          (\<lambda>m. (Returned (), m\<lparr>clients := []\<rparr>)),
          log ''SSEManager cleaned up all clients and intervals.'']"

subsection \<open>The exported utility functions\<close>

definition sendSSEToClient :: "string \<Rightarrow> string \<Rightarrow> json \<Rightarrow> unit act" where
  "sendSSEToClient clientId ev payload = sendEventToClient clientId \<lparr>event = ev, data = payload\<rparr>"

definition sendSSEToUser :: "string \<Rightarrow> string \<Rightarrow> json \<Rightarrow> unit act" where
  "sendSSEToUser token ev payload = sendEventToUser token \<lparr>event = ev, data = payload\<rparr>"

definition broadcastSSE :: "string \<Rightarrow> json \<Rightarrow> unit act" where
  "broadcastSSE ev payload = broadcast \<lparr>event = ev, data = payload\<rparr>"

definition sendSSEToSubscribers :: "string \<Rightarrow> string \<Rightarrow> json \<Rightarrow> unit act" where
  "sendSSEToSubscribers eventName ev payload =
     sendEventToSubscribers eventName \<lparr>event = ev, data = payload\<rparr>"

text \<open>
  The route \<open>clients\<close> lists the live connections from the map, with
  \<open>subscriptions: c.subscriptions || []\<close>.
\<close>

definition listed_subscriptions :: "SSEClient \<Rightarrow> string list" where
  "listed_subscriptions c = (case subscriptions c of None \<Rightarrow> [] | Some xs \<Rightarrow> xs)"

section \<open>The wire format of the spec\<close>

text \<open>
  The wire format as the spec words it (section 6): an event-name line, a data line with
  the JSON-encoded payload, and a blank line. It is compared below with what \<open>send\<close>
  writes.
\<close>

definition spec_wire_format :: "string \<Rightarrow> json \<Rightarrow> string" where
  "spec_wire_format name payload =
     ''event: '' @ name @ [CHR 0x0A] @ ''data: '' @ JSON_stringify payload @ [CHR 0x0A] @ [CHR 0x0A]"

section \<open>The scenario of the demo page\<close>

text \<open>
  One client \<open>c1\<close> with session token \<open>tokA\<close> connects to a fresh manager at time 0,
  then \<open>tokA\<close> subscribes to \<open>demo-event\<close>. A second client \<open>c2\<close> of the same session
  has a connection of its own.
\<close>

definition client_c1 :: SSEClient where
  "client_c1 =
     \<lparr>id_client = ''c1'',
      res = \<lparr>conn = 1, isStreamRes = True, write_throws = None, end_throws = None\<rparr>,
      sessionToken = Some ''tokA'', lastPing = 0, subscriptions = None,
      userAgent = None, ipAddress = None\<rparr>"

definition client_c2 :: SSEClient where
  "client_c2 =
     \<lparr>id_client = ''c2'',
      res = \<lparr>conn = 2, isStreamRes = True, write_throws = None, end_throws = None\<rparr>,
      sessionToken = Some ''tokA'', lastPing = 5, subscriptions = None,
      userAgent = None, ipAddress = None\<rparr>"

definition demo_scenario :: manager where
  "demo_scenario =
     snd (seq [addClient 0 client_c1, subscribeToEvent ''tokA'' ''demo-event'' None] initial)"

section \<open>Notions used in the statements and proofs\<close>

text \<open>The store call that comes next is scheduled to fail.\<close>

definition next_store_call_fails :: "manager \<Rightarrow> bool" where
  "next_store_call_fails m = (case faults m of Some e # fs \<Rightarrow> True | _ \<Rightarrow> False)"

text \<open>
  An action returns normally from every state; an action takes every state to one that
  is related to it by \<open>R\<close>. The relations used are reflexive and transitive, so that
  they pass through sequences, loops and handlers.
\<close>

definition returns :: "unit act \<Rightarrow> bool" where
  "returns a = (\<forall>m. fst (a m) = Returned ())"

definition stays_in :: "(manager \<Rightarrow> manager \<Rightarrow> bool) \<Rightarrow> 'a act \<Rightarrow> bool" where
  "stays_in R a = (\<forall>m. R m (snd (a m)))"

definition refl_trans :: "(manager \<Rightarrow> manager \<Rightarrow> bool) \<Rightarrow> bool" where
  "refl_trans R = ((\<forall>m. R m m) \<and> (\<forall>a b c. R a b \<longrightarrow> R b c \<longrightarrow> R a c))"

definition same_clients :: "manager \<Rightarrow> manager \<Rightarrow> bool" where
  "same_clients m m' = (clients m' = clients m)"

definition same_store :: "manager \<Rightarrow> manager \<Rightarrow> bool" where
  "same_store m m' = (db m' = db m \<and> faults m' = faults m)"

definition only_clients_change :: "manager \<Rightarrow> manager \<Rightarrow> bool" where
  "only_clients_change m m' =
     (db m' = db m \<and> faults m' = faults m \<and> effects m' = effects m \<and> logs m' = logs m)"

text \<open>The calls made on connections are those before, then new ones that all satisfy \<open>P\<close>.\<close>

definition emits_only :: "(effect \<Rightarrow> bool) \<Rightarrow> manager \<Rightarrow> manager \<Rightarrow> bool" where
  "emits_only P m m' = (\<exists>new. effects m' = effects m @ new \<and> list_all P new)"

section \<open>One live connection per session: the invariant\<close>

text \<open>
  The keys of the map with the session token of each entry, and the invariant: no key
  twice (it is a \<open>Map\<close>), and no non-empty session token on two entries. A step
  \<open>shrinks\<close> the map when it only removes entries and changes no session token.
\<close>

definition keyed_tokens :: "manager \<Rightarrow> (string \<times> string option) list" where
  "keyed_tokens m = map (\<lambda>(k, c). (k, sessionToken c)) (clients m)"

definition one_connection_per_session :: "manager \<Rightarrow> bool" where
  "one_connection_per_session m =
     (distinct (map fst (keyed_tokens m))
      \<and> distinct (filter truthy (map snd (keyed_tokens m))))"

definition shrinks :: "manager \<Rightarrow> manager \<Rightarrow> bool" where
  "shrinks m m' = (\<exists>S. keyed_tokens m' = filter S (keyed_tokens m))"

text \<open>
  The states the manager can be in: it starts empty; the store may be scheduled to fail in
  any way at any time; every public method and every run of the two timers is a step.
  The steps are taken one at a time, each running to its end before the next starts.
\<close>

inductive reachable :: "manager \<Rightarrow> bool" where
  reach_initial: "reachable initial"
| reach_faults: "reachable m \<Longrightarrow> reachable (m\<lparr>faults := fs\<rparr>)"
| reach_addClient: "reachable m \<Longrightarrow> reachable (snd (addClient now client m))"
| reach_removeClient: "reachable m \<Longrightarrow> reachable (snd (removeClient now clientId m))"
| reach_sendEventToClient: "reachable m \<Longrightarrow> reachable (snd (sendEventToClient clientId ev m))"
| reach_sendEventToUser: "reachable m \<Longrightarrow> reachable (snd (sendEventToUser token ev m))"
| reach_sendEventToSubscribers: "reachable m \<Longrightarrow> reachable (snd (sendEventToSubscribers eventName ev m))"
| reach_broadcast: "reachable m \<Longrightarrow> reachable (snd (broadcast ev m))"
| reach_subscribeToEvent: "reachable m \<Longrightarrow> reachable (snd (subscribeToEvent token eventName cid m))"
| reach_unsubscribeFromEvent: "reachable m \<Longrightarrow> reachable (snd (unsubscribeFromEvent token eventName cid m))"
| reach_unsubscribeFromAllEvents: "reachable m \<Longrightarrow> reachable (snd (unsubscribeFromAllEvents token m))"
| reach_heartbeat: "reachable m \<Longrightarrow> reachable (snd (heartbeat now m))"
| reach_sessionCleanup: "reachable m \<Longrightarrow> reachable (snd (sessionCleanup now m))"
| reach_cleanup: "reachable m \<Longrightarrow> reachable (snd (cleanup m))"

section \<open>Notions for the session cleanup\<close>



section \<open>Control operators: returning normally\<close>

lemma returnsD: "returns a \<Longrightarrow> fst (a m) = Returned ()"
  by (simp add: returns_def)

lemma returns_eq: "returns a \<Longrightarrow> a m = (Returned (), snd (a m))"
  by (metis prod.collapse returnsD)

lemma seq_Nil_returns: "returns (seq [])"
  by (simp add: returns_def)

lemma seq_step: "returns a \<Longrightarrow> seq (a # as) m = seq as (snd (a m))"
proof -
  assume r: "returns a"
  obtain m1 where "a m = (Returned (), m1)"
    using returns_eq [OF r] by blast
  then show ?thesis by simp
qed

lemma seq_Cons_returns: "returns a \<Longrightarrow> returns (seq as) \<Longrightarrow> returns (seq (a # as))"
proof -
  assume a: "returns a" and b: "returns (seq as)"
  have "fst (seq (a # as) m) = Returned ()" for m
    unfolding seq_step [OF a] using b by (simp add: returns_def)
  then show ?thesis unfolding returns_def by blast
qed

lemma try_catch_returns: "(\<And>e. returns (h e)) \<Longrightarrow> returns (try_catch b h)"
  by (auto simp: returns_def try_catch_def split: prod.splits outcome.splits)

lemma if_then_returns: "returns a \<Longrightarrow> returns (if_then c a)"
  by (simp add: returns_def if_then_def)

lemma for_each_returns: "(\<And>x. returns (body x)) \<Longrightarrow> returns (for_each xs body)"
  unfolding returns_def
proof (induction xs)
  case Nil
  show ?case by simp
next
  case (Cons x xs)
  show ?case
  proof
    fix m
    obtain o1 m1 where b: "body x m = (o1, m1)" by (cases "body x m")
    with Cons.prems [of x] have "o1 = Returned ()" by (metis fst_conv)
    with b Cons.IH Cons.prems show "fst (for_each (x # xs) body m) = Returned ()" by simp
  qed
qed

lemma for_clients_returns: "(\<And>k c. returns (body k c)) \<Longrightarrow> returns (for_clients body)"
proof -
  assume b: "\<And>k c. returns (body k c)"
  have "\<And>k. returns (\<lambda>m'. case map_of (clients m') k of None \<Rightarrow> (Returned (), m') | Some c \<Rightarrow> body k c m')"
    using b by (auto simp: returns_def split: option.splits)
  then have "\<And>ks. returns (for_each ks (\<lambda>k m'. case map_of (clients m') k of None \<Rightarrow> (Returned (), m') | Some c \<Rightarrow> body k c m'))"
    by (rule for_each_returns)
  then show ?thesis
    by (simp add: returns_def for_clients_def)
qed

lemma log_returns: "returns (log msg)"
  by (simp add: returns_def log_def)

lemma modify_client_returns: "returns (modify_client k f)"
  by (simp add: returns_def modify_client_def)

lemma clients_set_returns: "returns (clients_set k c)"
  by (simp add: returns_def clients_set_def)

lemma clients_delete_returns: "returns (clients_delete k)"
  by (simp add: returns_def clients_delete_def)

lemmas returns_intros = seq_Nil_returns seq_Cons_returns try_catch_returns if_then_returns
  for_each_returns for_clients_returns log_returns modify_client_returns clients_set_returns
  clients_delete_returns

lemma updateSession_returns: "returns (updateSession now c)"
  unfolding updateSession_def by (intro returns_intros)

lemma updateSessionPing_returns: "returns (updateSessionPing now c)"
  unfolding updateSessionPing_def by (intro returns_intros)

lemma markSessionOffline_returns: "returns (markSessionOffline now c)"
  unfolding markSessionOffline_def by (intro returns_intros)

lemma markSessionOfflineBySessionToken_returns: "returns (markSessionOfflineBySessionToken now c)"
  unfolding markSessionOfflineBySessionToken_def by (intro returns_intros)

lemma removeClient_returns: "returns (removeClient now k)"
proof -
  have "fst (removeClient now k m) = Returned ()" for m
  proof (cases "map_of (clients m) k")
    case None
    then show ?thesis by (simp add: removeClient_def)
  next
    case (Some c)
    have "returns (seq [try_catch (res_end (res c))
                 (\<lambda>err. log (''Error ending response for client '' @ k @ '': '' @ err)),
               (case sessionToken c of
                  None \<Rightarrow> markSessionOffline now k
                | Some token \<Rightarrow>
                    if token \<noteq> [] then markSessionOfflineBySessionToken now token
                    else markSessionOffline now k),
               clients_delete k,
               log (''Client disconnected: '' @ k)])"
      by (intro returns_intros markSessionOffline_returns markSessionOfflineBySessionToken_returns
          | simp split: option.splits | intro conjI impI allI)+
    with Some show ?thesis by (simp add: removeClient_def returns_def)
  qed
  then show ?thesis by (simp add: returns_def)
qed

lemma addClient_returns: "returns (addClient now c)"
  unfolding addClient_def
  by (intro returns_intros removeClient_returns updateSession_returns)

lemma send_returns: "returns (send r ev)"
  unfolding send_def by (intro returns_intros)

lemma sendEventToClient_returns: "returns (sendEventToClient k ev)"
  using send_returns by (auto simp: returns_def sendEventToClient_def split: option.splits)

lemma sendEventToUser_returns: "returns (sendEventToUser t ev)"
  unfolding sendEventToUser_def by (intro returns_intros send_returns)

lemma broadcast_returns: "returns (broadcast ev)"
  unfolding broadcast_def by (intro returns_intros send_returns)

lemma subscribeToEvent_returns: "returns (subscribeToEvent t e c)"
  unfolding subscribeToEvent_def by (intro returns_intros)

lemma unsubscribeFromEvent_returns: "returns (unsubscribeFromEvent t e c)"
  unfolding unsubscribeFromEvent_def by (intro returns_intros)

lemma unsubscribeFromAllEvents_returns: "returns (unsubscribeFromAllEvents t)"
  unfolding unsubscribeFromAllEvents_def by (intro returns_intros)

lemma heartbeat_returns: "returns (heartbeat now)"
  unfolding heartbeat_def by (intro returns_intros removeClient_returns)

lemma sessionCleanup_returns: "returns (sessionCleanup now)"
  unfolding sessionCleanup_def by (intro returns_intros)

lemma cleanup_returns: "returns cleanup"
  unfolding cleanup_def by (intro returns_intros) (simp add: returns_def)

lemma refl_transI: "(\<And>m. R m m) \<Longrightarrow> (\<And>a b c. R a b \<Longrightarrow> R b c \<Longrightarrow> R a c) \<Longrightarrow> refl_trans R"
  unfolding refl_trans_def by blast

lemma stays_in_seq_Nil: "refl_trans R \<Longrightarrow> stays_in R (seq [])"
  by (simp add: stays_in_def refl_trans_def)

lemma stays_in_seq_Cons:
  assumes rt: "refl_trans R" and a: "stays_in R a" and r: "stays_in R (seq as)"
  shows "stays_in R (seq (a # as))"
  unfolding stays_in_def
proof
  fix m
  obtain o1 m1 where am: "a m = (o1, m1)" by (cases "a m")
  have 1: "R m m1" using a am by (metis snd_conv stays_in_def)
  show "R m (snd (seq (a # as) m))"
  proof (cases o1)
    case (Returned u)
    have "R m1 (snd (seq as m1))" using r by (simp add: stays_in_def)
    with 1 rt have "R m (snd (seq as m1))" unfolding refl_trans_def by blast
    with am Returned show ?thesis by simp
  next
    case (Threw e)
    with am 1 show ?thesis by simp
  qed
qed

lemma stays_in_try_catch:
  assumes rt: "refl_trans R" and b: "stays_in R b" and h: "\<And>e. stays_in R (h e)"
  shows "stays_in R (try_catch b h)"
  unfolding stays_in_def
proof
  fix m
  obtain o1 m1 where bm: "b m = (o1, m1)" by (cases "b m")
  have 1: "R m m1" using b bm by (metis snd_conv stays_in_def)
  show "R m (snd (try_catch b h m))"
  proof (cases o1)
    case (Returned u)
    with bm 1 show ?thesis by (simp add: try_catch_def)
  next
    case (Threw e)
    have "R m1 (snd (h e m1))" using h by (simp add: stays_in_def)
    with 1 rt have "R m (snd (h e m1))" unfolding refl_trans_def by blast
    with bm Threw show ?thesis by (simp add: try_catch_def)
  qed
qed

lemma stays_in_bind:
  assumes rt: "refl_trans R" and f: "stays_in R f" and g: "\<And>x. stays_in R (g x)"
  shows "stays_in R (bind_act f g)"
  unfolding stays_in_def
proof
  fix m
  obtain o1 m1 where fm: "f m = (o1, m1)" by (cases "f m")
  have 1: "R m m1" using f fm by (metis snd_conv stays_in_def)
  show "R m (snd (bind_act f g m))"
  proof (cases o1)
    case (Returned x)
    have "R m1 (snd (g x m1))" using g by (simp add: stays_in_def)
    with 1 rt have "R m (snd (g x m1))" unfolding refl_trans_def by blast
    with fm Returned show ?thesis by (simp add: bind_act_def)
  next
    case (Threw e)
    with fm 1 show ?thesis by (simp add: bind_act_def)
  qed
qed

lemma stays_in_if_then: "refl_trans R \<Longrightarrow> stays_in R a \<Longrightarrow> stays_in R (if_then c a)"
  by (simp add: stays_in_def if_then_def refl_trans_def)

lemma stays_in_for_each:
  assumes rt: "refl_trans R" and b: "\<And>x. stays_in R (body x)"
  shows "stays_in R (for_each xs body)"
  unfolding stays_in_def
proof (induction xs)
  case Nil
  show ?case using rt by (simp add: refl_trans_def)
next
  case (Cons x xs)
  show ?case
  proof
    fix m
    obtain o1 m1 where bm: "body x m = (o1, m1)" by (cases "body x m")
    have 1: "R m m1" using b [of x] bm by (metis snd_conv stays_in_def)
    show "R m (snd (for_each (x # xs) body m))"
    proof (cases o1)
      case (Returned u)
      have "R m1 (snd (for_each xs body m1))" using Cons.IH by simp
      with 1 rt have "R m (snd (for_each xs body m1))" unfolding refl_trans_def by blast
      with bm Returned show ?thesis by simp
    next
      case (Threw e)
      with bm 1 show ?thesis by simp
    qed
  qed
qed

lemma stays_in_for_clients:
  assumes rt: "refl_trans R" and b: "\<And>k c. stays_in R (body k c)"
  shows "stays_in R (for_clients body)"
proof -
  have "stays_in R (\<lambda>m'. case map_of (clients m') k of None \<Rightarrow> (Returned (), m') | Some c \<Rightarrow> body k c m')" for k
    using b rt by (auto simp: stays_in_def refl_trans_def split: option.splits)
  then have "stays_in R (for_each ks (\<lambda>k m'. case map_of (clients m') k of None \<Rightarrow> (Returned (), m') | Some c \<Rightarrow> body k c m'))" for ks
    by (rule stays_in_for_each [OF rt])
  then show ?thesis
    by (simp add: stays_in_def for_clients_def)
qed

lemmas stays_in_intros = stays_in_seq_Nil stays_in_seq_Cons stays_in_try_catch stays_in_bind
  stays_in_if_then stays_in_for_each stays_in_for_clients

lemma same_clients_rt: "refl_trans same_clients"
  by (rule refl_transI) (simp_all add: same_clients_def)

lemma send_same_clients: "stays_in same_clients (send r ev)"
  unfolding send_def Let_def
  by (intro stays_in_intros same_clients_rt | simp split: if_splits
      | simp add: stays_in_def same_clients_def res_write_def log_def split: option.splits)+

section \<open>The demo scenario and the subscription key\<close>

lemma demo_scenario_eq:
  "demo_scenario =
     \<lparr>clients = [(''c1'', client_c1\<lparr>subscriptions := Some [''demo-event'']\<rparr>)],
      db = \<lparr>sSESession = [\<lparr>sess_clientId = ''c1'', sess_sessionToken = Some ''tokA'',
                sess_status = Online, sess_lastSeen = 0, sess_lastPing = 0,
                sess_userAgent = None, sess_ipAddress = None\<rparr>],
            sSESubscription = [\<lparr>sub_sessionToken = ''tokA'', sub_eventName = ''demo-event'',
                sub_clientId = Some ''tokA''\<rparr>]\<rparr>,
      faults = [], effects = [],
      logs = [''[SSEManager] Client connected: c1 (Session: tokA)'',
              ''[SSEManager] Session tokA subscribed to event: demo-event'']\<rparr>"
  by code_simp

text \<open>
  The route of the repository gives a connection of a session the session token as its
  id. With that id the subscription is served, by \<open>sendEventToClient\<close>: one write, in
  the wire format.
\<close>

lemma delivery_when_id_is_session_token:
  "effects (snd (seq [addClient 0 (client_c1\<lparr>id_client := ''tokA''\<rparr>),
                      subscribeToEvent ''tokA'' ''demo-event'' None,
                      sendSSEToSubscribers ''demo-event'' ''demo-event'' (JObj [(''msg'', JStr ''hi'')])]
                 initial))
     = [Write 1 (''event: demo-event'' @ [CHR 0x0A] @ ''data: {'' @ [CHR 0x22] @ ''msg'' @ [CHR 0x22]
           @ '':'' @ [CHR 0x22] @ ''hi'' @ [CHR 0x22] @ ''}'' @ [CHR 0x0A, CHR 0x0A])]"
  by code_simp

text \<open>
  Claim C1. In the scenario (client \<open>c1\<close> with session token \<open>tokA\<close> live, \<open>tokA\<close>
  subscribed to \<open>demo-event\<close>) the claim expects one write on the connection of \<open>c1\<close>.
  The code writes nothing: the subscription was stored with \<open>clientId = "tokA"\<close>, so
  \<open>sendEventToSubscribers\<close> looks for a client whose id is \<open>tokA\<close> and finds none.
\<close>

theorem demo_scenario_delivers_nothing:
  "map fst (clients demo_scenario) = [''c1'']
   \<and> map (sessionToken \<circ> snd) (clients demo_scenario) = [Some ''tokA'']
   \<and> sSESubscription (db demo_scenario)
       = [\<lparr>sub_sessionToken = ''tokA'', sub_eventName = ''demo-event'', sub_clientId = Some ''tokA''\<rparr>]
   \<and> fst (sendSSEToSubscribers ''demo-event'' ''demo-event'' (JObj [(''msg'', JStr ''hi'')])
            demo_scenario) = Returned ()
   \<and> effects (snd (sendSSEToSubscribers ''demo-event'' ''demo-event'' (JObj [(''msg'', JStr ''hi'')])
            demo_scenario)) = []"
  by code_simp

text \<open>
  Claim C2. The claim expects the stored Subscription Record to carry the \<open>clientId\<close>
  that was passed (null when omitted). The code never reads that argument: whatever is
  passed, the record stored has \<open>clientId\<close> equal to the session token.
\<close>

theorem subscribeToEvent_ignores_clientId:
  "subscribeToEvent token eventName clientId m = subscribeToEvent token eventName None m
   \<and> sSESubscription (db (snd (subscribeToEvent ''tokA'' ''demo-event'' (Some ''c1'') initial)))
       = [\<lparr>sub_sessionToken = ''tokA'', sub_eventName = ''demo-event'', sub_clientId = Some ''tokA''\<rparr>]
   \<and> sSESubscription (db (snd (subscribeToEvent ''tokA'' ''demo-event'' None initial)))
       = [\<lparr>sub_sessionToken = ''tokA'', sub_eventName = ''demo-event'', sub_clientId = Some ''tokA''\<rparr>]"
proof -
  have "subscribeToEvent token eventName clientId m = subscribeToEvent token eventName None m"
    by (simp add: subscribeToEvent_def)
  moreover have "sSESubscription (db (snd (subscribeToEvent ''tokA'' ''demo-event'' (Some ''c1'') initial)))
       = [\<lparr>sub_sessionToken = ''tokA'', sub_eventName = ''demo-event'', sub_clientId = Some ''tokA''\<rparr>]"
    by code_simp
  moreover have "sSESubscription (db (snd (subscribeToEvent ''tokA'' ''demo-event'' None initial)))
       = [\<lparr>sub_sessionToken = ''tokA'', sub_eventName = ''demo-event'', sub_clientId = Some ''tokA''\<rparr>]"
    by code_simp
  ultimately show ?thesis by simp
qed

lemma db_call_ok:
  "\<not> next_store_call_fails m \<Longrightarrow>
     db_call q m = (Returned (fst (q (db m))), m\<lparr>db := snd (q (db m)), faults := tl (faults m)\<rparr>)"
  by (simp add: next_store_call_fails_def db_call_def split: list.splits option.splits)

lemma sendEventToSubscribers_returns_when_read_succeeds:
  assumes ok: "\<not> next_store_call_fails m"
  shows "fst (sendEventToSubscribers eventName ev m) = Returned ()"
proof -
  have "returns (case sub_clientId subscription of
            None \<Rightarrow> sendEventToUser (sub_sessionToken subscription) ev
          | Some clientId \<Rightarrow>
              if clientId \<noteq> [] then sendEventToClient clientId ev
              else sendEventToUser (sub_sessionToken subscription) ev)" for subscription
    by (simp add: sendEventToUser_returns sendEventToClient_returns split: option.splits)
  then have "returns (for_each subs (\<lambda>subscription.
          case sub_clientId subscription of
            None \<Rightarrow> sendEventToUser (sub_sessionToken subscription) ev
          | Some clientId \<Rightarrow>
              if clientId \<noteq> [] then sendEventToClient clientId ev
              else sendEventToUser (sub_sessionToken subscription) ev))" for subs
    by (rule for_each_returns)
  then have r: "fst (for_each subs (\<lambda>subscription.
          case sub_clientId subscription of
            None \<Rightarrow> sendEventToUser (sub_sessionToken subscription) ev
          | Some clientId \<Rightarrow>
              if clientId \<noteq> [] then sendEventToClient clientId ev
              else sendEventToUser (sub_sessionToken subscription) ev) m') = Returned ()" for subs m'
    unfolding returns_def by blast
  show ?thesis
    unfolding sendEventToSubscribers_def
    by (simp add: bind_act_def db_call_ok [OF ok] r)
qed

text \<open>
  Claim C3. The claim expects every operation to return normally when a store call fails.
  \<open>sendEventToSubscribers\<close> reads the subscriptions outside any \<open>try\<close>: when that read
  fails, the method throws what the store threw. It returns normally when the read
  succeeds, and every other operation catches and logs the failures of its store calls
  (the lemmas on \<open>returns\<close> above).
\<close>

theorem sendEventToSubscribers_propagates_store_failure:
  "sendEventToSubscribers eventName ev (m\<lparr>faults := Some err # fs\<rparr>) = (Threw err, m\<lparr>faults := fs\<rparr>)"
  by (simp add: sendEventToSubscribers_def bind_act_def db_call_def)

text \<open>
  Claim C8. \<open>sendEventToClient\<close> for an id that is not a key of the map returns
  normally and leaves the whole state as it was: the map and its clients, the store, and
  no call of \<open>write\<close> or \<open>end\<close>, no log line.
\<close>

theorem sendEventToClient_absent_is_noop:
  "map_of (clients m) clientId = None \<Longrightarrow> sendEventToClient clientId ev m = (Returned (), m)"
  by (simp add: sendEventToClient_def)

theorem sendEventToClient_absent_is_noop_witness:
  "map_of (clients demo_scenario) ''ghost'' = None
   \<and> sendEventToClient ''ghost'' \<lparr>event = ''demo-event'', data = JObj []\<rparr> demo_scenario
       = (Returned (), demo_scenario)"
proof -
  have h: "map_of (clients demo_scenario) ''ghost'' = None"
    by (simp add: demo_scenario_eq)
  show ?thesis
    using h sendEventToClient_absent_is_noop [OF h] by simp
qed

section \<open>The send operations: what they leave unchanged, what they write\<close>

lemma sendEventToClient_same_clients: "stays_in same_clients (sendEventToClient k ev)"
  using send_same_clients
  by (auto simp: stays_in_def same_clients_def sendEventToClient_def split: option.splits)

lemma sendEventToUser_same_clients: "stays_in same_clients (sendEventToUser t ev)"
  unfolding sendEventToUser_def
  by (intro stays_in_intros same_clients_rt send_same_clients)

lemma broadcast_same_clients: "stays_in same_clients (broadcast ev)"
  unfolding broadcast_def
  by (intro stays_in_intros same_clients_rt send_same_clients)

lemma db_call_same_clients: "stays_in same_clients (db_call q)"
  by (simp add: stays_in_def same_clients_def db_call_def split: list.splits option.splits)

lemma sendEventToSubscribers_same_clients: "stays_in same_clients (sendEventToSubscribers e ev)"
  unfolding sendEventToSubscribers_def
  by (intro stays_in_intros same_clients_rt db_call_same_clients)
     (simp add: sendEventToClient_same_clients sendEventToUser_same_clients split: option.splits)

text \<open>
  Claim C10. Each of the four send operations leaves the map of live connections as it
  was, entry by entry and field by field, whatever the connections do when written to;
  a failing write is caught and logged by \<open>send\<close>, which returns normally and removes
  nothing.
\<close>

theorem send_operations_keep_clients:
  "clients (snd (sendEventToClient clientId ev m)) = clients m
   \<and> clients (snd (sendEventToUser token ev m)) = clients m
   \<and> clients (snd (sendEventToSubscribers eventName ev m)) = clients m
   \<and> clients (snd (broadcast ev m)) = clients m
   \<and> send (r\<lparr>write_throws := Some err\<rparr>) ev m
       = (Returned (),
          m\<lparr>effects := effects m @ [Write (conn r)
                (''event: '' @ event ev @ [CHR 0x0A] @ ''data: '' @ JSON_stringify (data ev)
                   @ [CHR 0x0A, CHR 0x0A])],
            logs := logs m @ [''[SSEManager] Error sending event to client: '' @ err]\<rparr>)"
proof -
  have 1: "clients (snd (sendEventToClient clientId ev m)) = clients m"
    using sendEventToClient_same_clients by (simp add: stays_in_def same_clients_def)
  have 2: "clients (snd (sendEventToUser token ev m)) = clients m"
    using sendEventToUser_same_clients by (simp add: stays_in_def same_clients_def)
  have 3: "clients (snd (sendEventToSubscribers eventName ev m)) = clients m"
    using sendEventToSubscribers_same_clients by (simp add: stays_in_def same_clients_def)
  have 4: "clients (snd (broadcast ev m)) = clients m"
    using broadcast_same_clients by (simp add: stays_in_def same_clients_def)
  have 5: "send (r\<lparr>write_throws := Some err\<rparr>) ev m
       = (Returned (),
          m\<lparr>effects := effects m @ [Write (conn r)
                (''event: '' @ event ev @ [CHR 0x0A] @ ''data: '' @ JSON_stringify (data ev)
                   @ [CHR 0x0A, CHR 0x0A])],
            logs := logs m @ [''[SSEManager] Error sending event to client: '' @ err]\<rparr>)"
    by (simp add: send_def try_catch_def res_write_def log_def Let_def)
  from 1 2 3 4 5 show ?thesis by blast
qed

lemma emits_only_rt: "refl_trans (emits_only P)"
proof (rule refl_transI)
  show "emits_only P m m" for m by (simp add: emits_only_def)
next
  fix a b c
  assume "emits_only P a b" "emits_only P b c"
  then obtain n1 n2 where "effects b = effects a @ n1" "list_all P n1"
    "effects c = effects b @ n2" "list_all P n2"
    unfolding emits_only_def by blast
  then have "effects c = effects a @ (n1 @ n2) \<and> list_all P (n1 @ n2)" by simp
  then show "emits_only P a c" unfolding emits_only_def by blast
qed

lemma send_effects:
  "effects (snd (send r ev m))
     = effects m @ [Write (conn r)
         (''event: '' @ event ev @ [CHR 0x0A] @ ''data: '' @ JSON_stringify (data ev)
            @ [CHR 0x0A, CHR 0x0A])]"
  by (simp add: send_def try_catch_def res_write_def log_def Let_def split: option.splits)

lemma send_emits: "P (Write (conn r) (''event: '' @ event ev @ [CHR 0x0A] @ ''data: ''
      @ JSON_stringify (data ev) @ [CHR 0x0A, CHR 0x0A])) \<Longrightarrow> stays_in (emits_only P) (send r ev)"
  by (simp add: stays_in_def emits_only_def send_effects)

lemma db_call_emits: "stays_in (emits_only P) (db_call q)"
  by (simp add: stays_in_def emits_only_def db_call_def split: list.splits option.splits)

lemma log_emits: "stays_in (emits_only P) (log msg)"
  by (simp add: stays_in_def emits_only_def log_def)

lemma modify_client_emits: "stays_in (emits_only P) (modify_client k f)"
  by (simp add: stays_in_def emits_only_def modify_client_def)

lemma clients_delete_emits: "stays_in (emits_only P) (clients_delete k)"
  by (simp add: stays_in_def emits_only_def clients_delete_def)

lemma res_write_emits: "P (Write (conn r) chunk) \<Longrightarrow> stays_in (emits_only P) (res_write r chunk)"
  by (simp add: stays_in_def emits_only_def res_write_def split: option.splits)

lemma res_end_emits: "P (End (conn r)) \<Longrightarrow> stays_in (emits_only P) (res_end r)"
  by (simp add: stays_in_def emits_only_def res_end_def split: option.splits)

lemma db_try_emits: "stays_in (emits_only P) (try_catch (db_write f) (\<lambda>err. log (g err)))"
  unfolding db_write_def
  by (intro stays_in_intros emits_only_rt db_call_emits log_emits)

lemma removeClient_emits:
  assumes "\<And>h. P (End h)"
  shows "stays_in (emits_only P) (removeClient now k)"
proof -
  have rt: "refl_trans (emits_only P)" by (rule emits_only_rt)
  have "emits_only P m (snd (removeClient now k m))" for m
  proof (cases "map_of (clients m) k")
    case None
    then show ?thesis by (simp add: removeClient_def emits_only_def)
  next
    case (Some c)
    have "stays_in (emits_only P) (seq [try_catch (res_end (res c))
                 (\<lambda>err. log (''Error ending response for client '' @ k @ '': '' @ err)),
               (case sessionToken c of
                  None \<Rightarrow> markSessionOffline now k
                | Some token \<Rightarrow>
                    if token \<noteq> [] then markSessionOfflineBySessionToken now token
                    else markSessionOffline now k),
               clients_delete k,
               log (''Client disconnected: '' @ k)])"
      unfolding markSessionOffline_def markSessionOfflineBySessionToken_def
      by (intro stays_in_intros rt res_end_emits assms log_emits clients_delete_emits
          | simp add: db_try_emits split: option.splits | intro conjI impI allI)+
    with Some show ?thesis by (simp add: removeClient_def stays_in_def)
  qed
  then show ?thesis by (simp add: stays_in_def)
qed

lemma sendEventToClient_emits:
  "P = (\<lambda>e. \<exists>h. e = Write h (''event: '' @ event ev @ [CHR 0x0A] @ ''data: ''
      @ JSON_stringify (data ev) @ [CHR 0x0A, CHR 0x0A])) \<Longrightarrow> stays_in (emits_only P) (sendEventToClient k ev)"
  using send_emits [of P _ ev] emits_only_rt [of P]
  by (auto simp: stays_in_def sendEventToClient_def refl_trans_def split: option.splits)

lemma sendEventToUser_emits:
  "P = (\<lambda>e. \<exists>h. e = Write h (''event: '' @ event ev @ [CHR 0x0A] @ ''data: ''
      @ JSON_stringify (data ev) @ [CHR 0x0A, CHR 0x0A])) \<Longrightarrow> stays_in (emits_only P) (sendEventToUser t ev)"
  unfolding sendEventToUser_def
  by (intro stays_in_intros emits_only_rt send_emits) simp

lemma broadcast_emits:
  "P = (\<lambda>e. \<exists>h. e = Write h (''event: '' @ event ev @ [CHR 0x0A] @ ''data: ''
      @ JSON_stringify (data ev) @ [CHR 0x0A, CHR 0x0A])) \<Longrightarrow> stays_in (emits_only P) (broadcast ev)"
  unfolding broadcast_def
  by (intro stays_in_intros emits_only_rt send_emits) simp

lemma sendEventToSubscribers_emits:
  "P = (\<lambda>e. \<exists>h. e = Write h (''event: '' @ event ev @ [CHR 0x0A] @ ''data: ''
      @ JSON_stringify (data ev) @ [CHR 0x0A, CHR 0x0A])) \<Longrightarrow> stays_in (emits_only P) (sendEventToSubscribers e ev)"
  unfolding sendEventToSubscribers_def
  by (intro stays_in_intros emits_only_rt db_call_emits)
     (simp add: sendEventToClient_emits sendEventToUser_emits split: option.splits)

lemma heartbeat_emits:
  "P = (\<lambda>e. (\<exists>h. e = Write h (''event: ping'' @ [CHR 0x0A] @ ''data: {}'' @ [CHR 0x0A, CHR 0x0A]))
            \<or> (\<exists>h. e = End h)) \<Longrightarrow> stays_in (emits_only P) (heartbeat now)"
  unfolding heartbeat_def updateSessionPing_def
  by (intro stays_in_intros emits_only_rt res_write_emits modify_client_emits db_try_emits
        log_emits removeClient_emits) simp_all

lemma emits_onlyD:
  "stays_in (emits_only P) a \<Longrightarrow> \<exists>new. effects (snd (a m)) = effects m @ new \<and> (\<forall>e\<in>set new. P e)"
  by (simp add: stays_in_def emits_only_def list_all_iff)

text \<open>
  Claim C9. \<open>send\<close> makes exactly one call of \<open>write\<close>, on the connection it is given,
  with the envelope in the wire format of the spec: \<open>event: \<close>, the name, a newline,
  \<open>data: \<close>, the JSON-encoded payload and two newlines. Every call of \<open>write\<close> made by
  \<open>sendEventToClient\<close>, \<open>sendEventToUser\<close>, \<open>sendEventToSubscribers\<close> and
  \<open>broadcast\<close> carries exactly that text, and they make no other call on a
  connection. Every call of \<open>write\<close> made by the heartbeat carries the ping envelope,
  which is the wire format of the event \<open>ping\<close> with payload \<open>{}\<close>.
\<close>

theorem sends_write_the_wire_format:
  "effects (snd (send r ev m)) = effects m @ [Write (conn r) (spec_wire_format (event ev) (data ev))]
   \<and> (\<exists>new. effects (snd (sendEventToClient clientId ev m)) = effects m @ new
         \<and> (\<forall>e\<in>set new. \<exists>h. e = Write h (spec_wire_format (event ev) (data ev))))
   \<and> (\<exists>new. effects (snd (sendEventToUser token ev m)) = effects m @ new
         \<and> (\<forall>e\<in>set new. \<exists>h. e = Write h (spec_wire_format (event ev) (data ev))))
   \<and> (\<exists>new. effects (snd (sendEventToSubscribers eventName ev m)) = effects m @ new
         \<and> (\<forall>e\<in>set new. \<exists>h. e = Write h (spec_wire_format (event ev) (data ev))))
   \<and> (\<exists>new. effects (snd (broadcast ev m)) = effects m @ new
         \<and> (\<forall>e\<in>set new. \<exists>h. e = Write h (spec_wire_format (event ev) (data ev))))
   \<and> (\<exists>new. effects (snd (heartbeat now m)) = effects m @ new
         \<and> (\<forall>e\<in>set new. (\<exists>h. e = Write h (spec_wire_format ''ping'' (JObj []))) \<or> (\<exists>h. e = End h)))
   \<and> spec_wire_format ''ping'' (JObj []) = ''event: ping'' @ [CHR 0x0A] @ ''data: {}'' @ [CHR 0x0A, CHR 0x0A]"
proof -
  have w: "spec_wire_format (event ev) (data ev)
      = ''event: '' @ event ev @ [CHR 0x0A] @ ''data: '' @ JSON_stringify (data ev) @ [CHR 0x0A, CHR 0x0A]"
    by (simp add: spec_wire_format_def)
  have p: "spec_wire_format ''ping'' (JObj []) = ''event: ping'' @ [CHR 0x0A] @ ''data: {}'' @ [CHR 0x0A, CHR 0x0A]"
    by (simp add: spec_wire_format_def)
  have 1: "effects (snd (send r ev m)) = effects m @ [Write (conn r) (spec_wire_format (event ev) (data ev))]"
    unfolding w by (rule send_effects)
  have 2: "\<exists>new. effects (snd (sendEventToClient clientId ev m)) = effects m @ new
         \<and> (\<forall>e\<in>set new. \<exists>h. e = Write h (spec_wire_format (event ev) (data ev)))"
    unfolding w by (rule emits_onlyD [OF sendEventToClient_emits]) simp
  have 3: "\<exists>new. effects (snd (sendEventToUser token ev m)) = effects m @ new
         \<and> (\<forall>e\<in>set new. \<exists>h. e = Write h (spec_wire_format (event ev) (data ev)))"
    unfolding w by (rule emits_onlyD [OF sendEventToUser_emits]) simp
  have 4: "\<exists>new. effects (snd (sendEventToSubscribers eventName ev m)) = effects m @ new
         \<and> (\<forall>e\<in>set new. \<exists>h. e = Write h (spec_wire_format (event ev) (data ev)))"
    unfolding w by (rule emits_onlyD [OF sendEventToSubscribers_emits]) simp
  have 5: "\<exists>new. effects (snd (broadcast ev m)) = effects m @ new
         \<and> (\<forall>e\<in>set new. \<exists>h. e = Write h (spec_wire_format (event ev) (data ev)))"
    unfolding w by (rule emits_onlyD [OF broadcast_emits]) simp
  have 6: "\<exists>new. effects (snd (heartbeat now m)) = effects m @ new
         \<and> (\<forall>e\<in>set new. (\<exists>h. e = Write h (spec_wire_format ''ping'' (JObj []))) \<or> (\<exists>h. e = End h))"
    unfolding p by (rule emits_onlyD [OF heartbeat_emits]) simp
  from 1 2 3 4 5 6 p show ?thesis by blast
qed

theorem sends_write_the_wire_format_witness:
  "effects (snd (broadcast \<lparr>event = ''demo-event'', data = JObj [(''msg'', JStr ''hi'')]\<rparr> demo_scenario))
     = [Write 1 (''event: demo-event'' @ [CHR 0x0A] @ ''data: {'' @ [CHR 0x22] @ ''msg'' @ [CHR 0x22]
           @ '':'' @ [CHR 0x22] @ ''hi'' @ [CHR 0x22] @ ''}'' @ [CHR 0x0A, CHR 0x0A])]
   \<and> effects (snd (heartbeat 25000 demo_scenario))
     = [Write 1 (''event: ping'' @ [CHR 0x0A] @ ''data: {}'' @ [CHR 0x0A, CHR 0x0A])]
   \<and> (\<exists>h. Write 1 (''event: demo-event'' @ [CHR 0x0A] @ ''data: {'' @ [CHR 0x22] @ ''msg'' @ [CHR 0x22]
           @ '':'' @ [CHR 0x22] @ ''hi'' @ [CHR 0x22] @ ''}'' @ [CHR 0x0A, CHR 0x0A])
         = Write h (spec_wire_format ''demo-event'' (JObj [(''msg'', JStr ''hi'')])))"
proof -
  let ?ev = "\<lparr>event = ''demo-event'', data = JObj [(''msg'', JStr ''hi'')]\<rparr>"
  let ?w = "Write 1 (''event: demo-event'' @ [CHR 0x0A] @ ''data: {'' @ [CHR 0x22] @ ''msg'' @ [CHR 0x22]
           @ '':'' @ [CHR 0x22] @ ''hi'' @ [CHR 0x22] @ ''}'' @ [CHR 0x0A, CHR 0x0A])"
  have b: "effects (snd (broadcast ?ev demo_scenario)) = [?w]"
    by code_simp
  have hb: "effects (snd (heartbeat 25000 demo_scenario))
     = [Write 1 (''event: ping'' @ [CHR 0x0A] @ ''data: {}'' @ [CHR 0x0A, CHR 0x0A])]"
    by code_simp
  have e: "effects demo_scenario = []"
    by (simp add: demo_scenario_eq)
  from sends_write_the_wire_format [of _ ?ev demo_scenario]
  obtain new where n: "effects (snd (broadcast ?ev demo_scenario)) = effects demo_scenario @ new"
    and a: "\<forall>e\<in>set new. \<exists>h. e = Write h (spec_wire_format (event ?ev) (data ?ev))"
    by blast
  from n b e have "new = [?w]" by simp
  with a have "\<exists>h. ?w = Write h (spec_wire_format ''demo-event'' (JObj [(''msg'', JStr ''hi'')]))"
    by simp
  with b hb show ?thesis by blast
qed

section \<open>Subscribing and unsubscribing\<close>

lemma same_store_rt: "refl_trans same_store"
  by (rule refl_transI) (simp_all add: same_store_def)

lemma log_same_store: "stays_in same_store (log msg)"
  by (simp add: stays_in_def same_store_def log_def)

lemma modify_client_same_store: "stays_in same_store (modify_client k f)"
  by (simp add: stays_in_def same_store_def modify_client_def)

lemma modify_loop_returns:
  "returns (for_clients (\<lambda>k client. if_then (P client) (modify_client k f)))"
  by (intro returns_intros)

lemma db_write_ok:
  "\<not> next_store_call_fails m \<Longrightarrow>
     db_write f m = (Returned (), m\<lparr>db := f (db m), faults := tl (faults m)\<rparr>)"
  by (simp add: next_store_call_fails_def db_write_def db_call_def split: list.splits option.splits)


lemma try_store_then:
  assumes ok: "\<not> next_store_call_fails m" and r: "returns (seq as)"
  shows "try_catch (seq (db_write f # as)) h m
     = (Returned (), snd (seq as (m\<lparr>db := f (db m), faults := tl (faults m)\<rparr>)))"
proof -
  let ?m1 = "m\<lparr>db := f (db m), faults := tl (faults m)\<rparr>"
  have 1: "seq (db_write f # as) m = seq as ?m1"
    using db_write_ok [OF ok, of f] by simp
  obtain m2 where 2: "seq as ?m1 = (Returned (), m2)"
    using returns_eq [OF r] by blast
  show ?thesis
    by (simp add: try_catch_def 1 2 del: seq.simps)
qed

lemma subscribeToEvent_store:
  assumes ok: "\<not> next_store_call_fails m"
  shows "db (snd (subscribeToEvent s e c m))
     = (db m)\<lparr>sSESubscription :=
          upsert (\<lambda>r. sub_sessionToken r = s \<and> sub_eventName r = e \<and> sub_clientId r = Some s)
            (\<lambda>r. r) \<lparr>sub_sessionToken = s, sub_eventName = e, sub_clientId = Some s\<rparr>
            (sSESubscription (db m))\<rparr>"
    and "faults (snd (subscribeToEvent s e c m)) = tl (faults m)"
    and "fst (subscribeToEvent s e c m) = Returned ()"
proof -
  let ?loop = "for_clients (\<lambda>k client. if_then (sessionToken client = Some s)
                 (modify_client k (\<lambda>c.
                    let subs = (case subscriptions c of None \<Rightarrow> [] | Some xs \<Rightarrow> xs)
                    in c\<lparr>subscriptions := Some (if e \<in> set subs then subs else subs @ [e])\<rparr>)))"
  let ?rest = "[?loop, log (''Session '' @ s @ '' subscribed to event: '' @ e)]"
  have r: "returns (seq ?rest)"
    by (intro returns_intros)
  have st: "stays_in same_store (seq ?rest)"
    by (intro stays_in_intros same_store_rt modify_client_same_store log_same_store)
  have eq: "subscribeToEvent s e c m = (Returned (), snd (seq ?rest (m\<lparr>db := (db m)\<lparr>sSESubscription :=
          upsert (\<lambda>r. sub_sessionToken r = s \<and> sub_eventName r = e \<and> sub_clientId r = Some s)
            (\<lambda>r. r) \<lparr>sub_sessionToken = s, sub_eventName = e, sub_clientId = Some s\<rparr>
            (sSESubscription (db m))\<rparr>, faults := tl (faults m)\<rparr>)))"
    unfolding subscribeToEvent_def by (rule try_store_then [OF ok r])
  show "db (snd (subscribeToEvent s e c m))
     = (db m)\<lparr>sSESubscription :=
          upsert (\<lambda>r. sub_sessionToken r = s \<and> sub_eventName r = e \<and> sub_clientId r = Some s)
            (\<lambda>r. r) \<lparr>sub_sessionToken = s, sub_eventName = e, sub_clientId = Some s\<rparr>
            (sSESubscription (db m))\<rparr>"
    unfolding eq using st by (simp add: stays_in_def same_store_def)
  show "faults (snd (subscribeToEvent s e c m)) = tl (faults m)"
    unfolding eq using st by (simp add: stays_in_def same_store_def)
  show "fst (subscribeToEvent s e c m) = Returned ()"
    unfolding eq by simp
qed

lemma unsubscribeFromEvent_store:
  assumes ok: "\<not> next_store_call_fails m"
  shows "db (snd (unsubscribeFromEvent s e c m))
     = (db m)\<lparr>sSESubscription :=
          deleteMany (\<lambda>r. sub_sessionToken r = s \<and> sub_eventName r = e) (sSESubscription (db m))\<rparr>"
    and "faults (snd (unsubscribeFromEvent s e c m)) = tl (faults m)"
proof -
  let ?loop = "for_clients (\<lambda>k client.
               if_then (sessionToken client = Some s \<and> subscriptions client \<noteq> None)
                 (modify_client k (\<lambda>c.
                    c\<lparr>subscriptions := map_option (filter (\<lambda>sub. sub \<noteq> e)) (subscriptions c)\<rparr>)))"
  let ?rest = "[?loop, log (''Session '' @ s @ '' unsubscribed from event: '' @ e)]"
  have r: "returns (seq ?rest)"
    by (intro returns_intros)
  have st: "stays_in same_store (seq ?rest)"
    by (intro stays_in_intros same_store_rt modify_client_same_store log_same_store)
  have eq: "unsubscribeFromEvent s e c m = (Returned (), snd (seq ?rest (m\<lparr>db := (db m)\<lparr>sSESubscription :=
          deleteMany (\<lambda>r. sub_sessionToken r = s \<and> sub_eventName r = e) (sSESubscription (db m))\<rparr>,
          faults := tl (faults m)\<rparr>)))"
    unfolding unsubscribeFromEvent_def by (rule try_store_then [OF ok r])
  show "db (snd (unsubscribeFromEvent s e c m))
     = (db m)\<lparr>sSESubscription :=
          deleteMany (\<lambda>r. sub_sessionToken r = s \<and> sub_eventName r = e) (sSESubscription (db m))\<rparr>"
    unfolding eq using st by (simp add: stays_in_def same_store_def)
  show "faults (snd (unsubscribeFromEvent s e c m)) = tl (faults m)"
    unfolding eq using st by (simp add: stays_in_def same_store_def)
qed

lemma no_faults_ok: "faults m = [] \<Longrightarrow> \<not> next_store_call_fails m"
  by (simp add: next_store_call_fails_def)

lemma seq2: "returns a \<Longrightarrow> seq [a, b] m = b (snd (a m))"
proof -
  assume r: "returns a"
  have "seq [b] m' = b m'" for m'
    by (cases "b m'") (auto split: outcome.splits)
  then show ?thesis by (simp add: seq_step [OF r] del: seq.simps)
qed

text \<open>
  Claim C6. While the store answers every call, and starting from a store with no
  subscription of session \<open>s\<close> to event \<open>e\<close>: \<open>subscribe(s, e)\<close> followed by
  \<open>unsubscribe(s, e)\<close> leaves no Subscription Record of \<open>s\<close> to \<open>e\<close>; \<open>subscribe(s, e)\<close>
  leaves exactly one, and a second \<open>subscribe(s, e)\<close> leaves the store as the first left
  it, so exactly one again.
\<close>

theorem subscription_round_trip:
  assumes nf: "faults m = []"
    and fresh: "\<not> list_ex (\<lambda>r. sub_sessionToken r = s \<and> sub_eventName r = e) (sSESubscription (db m))"
  shows "filter (\<lambda>r. sub_sessionToken r = s \<and> sub_eventName r = e)
           (sSESubscription (db (snd (seq [subscribeToEvent s e c, unsubscribeFromEvent s e c'] m)))) = []
       \<and> length (filter (\<lambda>r. sub_sessionToken r = s \<and> sub_eventName r = e)
           (sSESubscription (db (snd (subscribeToEvent s e c m))))) = 1
       \<and> length (filter (\<lambda>r. sub_sessionToken r = s \<and> sub_eventName r = e)
           (sSESubscription (db (snd (seq [subscribeToEvent s e c, subscribeToEvent s e c] m))))) = 1
       \<and> db (snd (seq [subscribeToEvent s e c, subscribeToEvent s e c] m))
           = db (snd (subscribeToEvent s e c m))"
proof -
  let ?m1 = "snd (subscribeToEvent s e c m)"
  let ?match = "\<lambda>r. sub_sessionToken r = s \<and> sub_eventName r = e"
  let ?row = "\<lparr>sub_sessionToken = s, sub_eventName = e, sub_clientId = Some s\<rparr>"
  have ok: "\<not> next_store_call_fails m" using nf by (rule no_faults_ok)
  have none: "filter ?match (sSESubscription (db m)) = []"
    using fresh by (auto simp: list_ex_iff filter_empty_conv)
  have nokey: "\<not> list_ex (\<lambda>r. sub_sessionToken r = s \<and> sub_eventName r = e \<and> sub_clientId r = Some s)
                 (sSESubscription (db m))"
    using fresh by (auto simp: list_ex_iff)
  have db1: "sSESubscription (db ?m1) = sSESubscription (db m) @ [?row]"
    using nokey by (simp add: subscribeToEvent_store(1) [OF ok] upsert_def)
  have f1: "faults ?m1 = []"
    using nf by (simp add: subscribeToEvent_store(2) [OF ok])
  have ok1: "\<not> next_store_call_fails ?m1" using f1 by (rule no_faults_ok)
  have s1: "seq [subscribeToEvent s e c, a] m = a ?m1" for a
    by (rule seq2 [OF subscribeToEvent_returns])
  have A: "filter ?match (sSESubscription (db (snd (seq [subscribeToEvent s e c, unsubscribeFromEvent s e c'] m)))) = []"
    unfolding s1 by (simp add: unsubscribeFromEvent_store(1) [OF ok1] deleteMany_def filter_empty_conv)
  have B: "length (filter ?match (sSESubscription (db ?m1))) = 1"
    by (simp add: db1 none)
  have key1: "list_ex (\<lambda>r. sub_sessionToken r = s \<and> sub_eventName r = e \<and> sub_clientId r = Some s)
                 (sSESubscription (db ?m1))"
    by (simp add: db1)
  have D: "db (snd (seq [subscribeToEvent s e c, subscribeToEvent s e c] m)) = db ?m1"
    unfolding s1 using key1
    by (simp add: subscribeToEvent_store(1) [OF ok1] upsert_def updateMany_def)
  from A B D show ?thesis by simp
qed

theorem subscription_round_trip_witness:
  "faults initial = []
   \<and> \<not> list_ex (\<lambda>r. sub_sessionToken r = ''tokA'' \<and> sub_eventName r = ''demo-event'')
         (sSESubscription (db initial))
   \<and> sSESubscription (db (snd (seq [subscribeToEvent ''tokA'' ''demo-event'' None,
         unsubscribeFromEvent ''tokA'' ''demo-event'' None] initial))) = []
   \<and> length (sSESubscription (db (snd (seq [subscribeToEvent ''tokA'' ''demo-event'' None,
         subscribeToEvent ''tokA'' ''demo-event'' None] initial)))) = 1
   \<and> length (filter (\<lambda>r. sub_sessionToken r = ''tokA'' \<and> sub_eventName r = ''demo-event'')
        (sSESubscription (db (snd (seq [subscribeToEvent ''tokA'' ''demo-event'' None,
         subscribeToEvent ''tokA'' ''demo-event'' None] initial))))) = 1"
proof -
  have a: "faults initial = []" by (simp add: initial_def)
  have b: "\<not> list_ex (\<lambda>r. sub_sessionToken r = ''tokA'' \<and> sub_eventName r = ''demo-event'')
         (sSESubscription (db initial))" by (simp add: initial_def)
  have c: "sSESubscription (db (snd (seq [subscribeToEvent ''tokA'' ''demo-event'' None,
         unsubscribeFromEvent ''tokA'' ''demo-event'' None] initial))) = []" by code_simp
  have d: "length (sSESubscription (db (snd (seq [subscribeToEvent ''tokA'' ''demo-event'' None,
         subscribeToEvent ''tokA'' ''demo-event'' None] initial)))) = 1" by code_simp
  from subscription_round_trip [OF a b, of None None] a b c d show ?thesis by blast
qed

lemma only_clients_change_rt: "refl_trans only_clients_change"
  by (rule refl_transI) (simp_all add: only_clients_change_def)

lemma modify_loop_only_clients:
  "stays_in only_clients_change (for_clients (\<lambda>k client. if_then (P client) (modify_client k f)))"
  by (intro stays_in_intros only_clients_change_rt)
     (simp add: stays_in_def only_clients_change_def modify_client_def)

lemma map_of_modify:
  "map_of (map (\<lambda>(k', c). if k' = x then (k', f c) else (k', c)) al) k
     = (if k = x then map_option f (map_of al x) else map_of al k)"
  by (induction al) auto

lemma modify_each_map_of:
  assumes idem: "\<And>c. P c \<Longrightarrow> P (f c) \<Longrightarrow> f (f c) = f c"
  shows "map_of (clients (snd (for_each ks
            (\<lambda>k m'. case map_of (clients m') k of None \<Rightarrow> (Returned (), m')
                     | Some c \<Rightarrow> if_then (P c) (modify_client k f) m') m))) k
     = map_option (\<lambda>c. if k \<in> set ks \<and> P c then f c else c) (map_of (clients m) k)"
proof (induction ks arbitrary: m)
  case Nil
  show ?case by (simp add: option.map_ident)
next
  case (Cons x ks)
  let ?B = "\<lambda>k m'. case map_of (clients m') k of None \<Rightarrow> (Returned (), m')
                     | Some c \<Rightarrow> if_then (P c) (modify_client k f) m'"
  have "fst (?B x m) = Returned ()"
    by (simp add: if_then_def modify_client_def split: option.splits)
  then obtain m1 where b: "?B x m = (Returned (), m1)"
    by (metis prod.collapse)
  have m1: "map_of (clients m1) k
      = (if k = x then map_option (\<lambda>c. if P c then f c else c) (map_of (clients m) x)
         else map_of (clients m) k)"
    using b by (auto simp: if_then_def modify_client_def map_of_modify split: option.splits if_splits)
  have step: "snd (for_each (x # ks) ?B m) = snd (for_each ks ?B m1)"
    using b by simp
  show ?case
    unfolding step Cons.IH [of m1] m1
    using idem by (cases "map_of (clients m) k") auto
qed

lemma modify_loop_map_of:
  assumes idem: "\<And>c. P c \<Longrightarrow> P (f c) \<Longrightarrow> f (f c) = f c"
  shows "map_of (clients (snd (for_clients (\<lambda>k client. if_then (P client) (modify_client k f)) m))) k
     = map_option (\<lambda>c. if P c then f c else c) (map_of (clients m) k)"
proof -
  have in_keys: "k \<in> set (map fst (clients m))" if "map_of (clients m) k = Some c" for c
    using that by (metis domI dom_map_of_conv_image_fst set_map)
  have "map_of (clients (snd (for_clients (\<lambda>k client. if_then (P client) (modify_client k f)) m))) k
     = map_option (\<lambda>c. if k \<in> set (map fst (clients m)) \<and> P c then f c else c) (map_of (clients m) k)"
    unfolding for_clients_def by (rule modify_each_map_of [OF idem])
  also have "\<dots> = map_option (\<lambda>c. if P c then f c else c) (map_of (clients m) k)"
    using in_keys by (cases "map_of (clients m) k") auto
  finally show ?thesis .
qed

text \<open>
  Claim C7. \<open>unsubscribeFromAllEvents(s)\<close> always returns normally. When its store call
  succeeds it deletes every Subscription Record of session \<open>s\<close> and no other, and gives
  every live connection of session \<open>s\<close> that has a subscriptions cache an empty one (a
  connection with no cache keeps none), so each lists no subscription; no other client
  changes. The log statement then fails on the unbound \<open>eventName\<close>; the method catches
  that and logs it, after the deletion and the clearing.
\<close>

theorem unsubscribeFromAllEvents_clears_session:
  "fst (unsubscribeFromAllEvents s m) = Returned ()
   \<and> (\<not> next_store_call_fails m \<longrightarrow>
        sSESubscription (db (snd (unsubscribeFromAllEvents s m)))
          = filter (\<lambda>r. sub_sessionToken r \<noteq> s) (sSESubscription (db m))
      \<and> sSESession (db (snd (unsubscribeFromAllEvents s m))) = sSESession (db m)
      \<and> (\<forall>k. map_of (clients (snd (unsubscribeFromAllEvents s m))) k
              = map_option (\<lambda>c. if sessionToken c = Some s \<and> subscriptions c \<noteq> None
                                 then c\<lparr>subscriptions := Some []\<rparr> else c)
                  (map_of (clients m) k))
      \<and> (\<forall>k c. map_of (clients (snd (unsubscribeFromAllEvents s m))) k = Some c
                  \<and> sessionToken c = Some s \<longrightarrow> listed_subscriptions c = [])
      \<and> effects (snd (unsubscribeFromAllEvents s m)) = effects m
      \<and> logs (snd (unsubscribeFromAllEvents s m))
          = logs m @ [''[SSEManager] Error unsubscribing from event: ReferenceError: eventName is not defined''])"
proof -
  let ?P = "\<lambda>c. sessionToken c = Some s \<and> subscriptions c \<noteq> None"
  let ?f = "\<lambda>c. c\<lparr>subscriptions := Some []\<rparr>"
  let ?loop = "for_clients (\<lambda>k client. if_then (?P client) (modify_client k ?f))"
  let ?m' = "snd (unsubscribeFromAllEvents s m)"
  have ret: "fst (unsubscribeFromAllEvents s m) = Returned ()"
    using unsubscribeFromAllEvents_returns by (simp add: returns_def)
  have main: "sSESubscription (db ?m') = filter (\<lambda>r. sub_sessionToken r \<noteq> s) (sSESubscription (db m))
      \<and> sSESession (db ?m') = sSESession (db m)
      \<and> (\<forall>k. map_of (clients ?m') k = map_option (\<lambda>c. if ?P c then ?f c else c) (map_of (clients m) k))
      \<and> (\<forall>k c. map_of (clients ?m') k = Some c \<and> sessionToken c = Some s \<longrightarrow> listed_subscriptions c = [])
      \<and> effects ?m' = effects m
      \<and> logs ?m' = logs m @ [''[SSEManager] Error unsubscribing from event: ReferenceError: eventName is not defined'']"
    if ok: "\<not> next_store_call_fails m"
  proof -
    let ?m1 = "m\<lparr>db := (db m)\<lparr>sSESubscription := deleteMany (\<lambda>r. sub_sessionToken r = s) (sSESubscription (db m))\<rparr>,
                  faults := tl (faults m)\<rparr>"
    obtain m2 where l: "?loop ?m1 = (Returned (), m2)"
      using returns_eq [OF modify_loop_returns [of ?P ?f], of ?m1] by blast
    have m2: "m2 = snd (?loop ?m1)"
      using l by simp
    have eq: "unsubscribeFromAllEvents s m
        = log (''Error unsubscribing from event: '' @ ''ReferenceError: eventName is not defined'') m2"
      unfolding unsubscribeFromAllEvents_def
      using db_write_ok [OF ok] l by (simp add: try_catch_def throw_def)
    have fr: "only_clients_change ?m1 m2"
      unfolding m2 using modify_loop_only_clients [of ?P ?f] by (simp add: stays_in_def)
    have cl: "map_of (clients m2) k = map_option (\<lambda>c. if ?P c then ?f c else c) (map_of (clients m) k)" for k
      unfolding m2 by (subst modify_loop_map_of) simp_all
    have m': "?m' = m2\<lparr>logs := logs m2 @ [''[SSEManager] '' @ ''Error unsubscribing from event: ''
                @ ''ReferenceError: eventName is not defined'']\<rparr>"
      unfolding eq by (simp add: log_def)
    have 1: "sSESubscription (db ?m') = filter (\<lambda>r. sub_sessionToken r \<noteq> s) (sSESubscription (db m))"
      unfolding m' using fr by (simp add: only_clients_change_def deleteMany_def)
    have 2: "sSESession (db ?m') = sSESession (db m)"
      unfolding m' using fr by (simp add: only_clients_change_def)
    have 3: "map_of (clients ?m') k = map_option (\<lambda>c. if ?P c then ?f c else c) (map_of (clients m) k)" for k
      unfolding m' using cl [of k] by simp
    have 4: "listed_subscriptions c = []"
      if "map_of (clients ?m') k = Some c" "sessionToken c = Some s" for k c
    proof -
      from that(1) obtain c0 where c0: "map_of (clients m) k = Some c0"
        and c: "c = (if ?P c0 then ?f c0 else c0)"
        unfolding 3 by auto
      show ?thesis
      proof (cases "subscriptions c0")
        case None
        with c show ?thesis by (simp add: listed_subscriptions_def)
      next
        case (Some xs)
        with c that(2) show ?thesis
          by (cases "sessionToken c0 = Some s") (auto simp: listed_subscriptions_def)
      qed
    qed
    have 5: "effects ?m' = effects m"
      unfolding m' using fr by (simp add: only_clients_change_def)
    have 6: "logs ?m' = logs m @ [''[SSEManager] Error unsubscribing from event: ReferenceError: eventName is not defined'']"
      unfolding m' using fr by (simp add: only_clients_change_def)
    from 1 2 3 4 5 6 show ?thesis by blast
  qed
  from ret main show ?thesis by blast
qed

theorem unsubscribeFromAllEvents_clears_session_witness:
  "\<not> next_store_call_fails demo_scenario
   \<and> sSESubscription (db demo_scenario) \<noteq> []
   \<and> map_of (clients demo_scenario) ''c1'' = Some (client_c1\<lparr>subscriptions := Some [''demo-event'']\<rparr>)
   \<and> fst (unsubscribeFromAllEvents ''tokA'' demo_scenario) = Returned ()
   \<and> sSESubscription (db (snd (unsubscribeFromAllEvents ''tokA'' demo_scenario))) = []
   \<and> map_of (clients (snd (unsubscribeFromAllEvents ''tokA'' demo_scenario))) ''c1''
       = Some (client_c1\<lparr>subscriptions := Some []\<rparr>)"
proof -
  have h: "\<not> next_store_call_fails demo_scenario"
    by (simp add: demo_scenario_eq next_store_call_fails_def)
  have a: "sSESubscription (db demo_scenario) \<noteq> []"
    by (simp add: demo_scenario_eq)
  have b: "map_of (clients demo_scenario) ''c1'' = Some (client_c1\<lparr>subscriptions := Some [''demo-event'']\<rparr>)"
    by (simp add: demo_scenario_eq)
  note t = unsubscribeFromAllEvents_clears_session [of "''tokA''" demo_scenario]
  from t have r: "fst (unsubscribeFromAllEvents ''tokA'' demo_scenario) = Returned ()"
    by blast
  from t h have d: "sSESubscription (db (snd (unsubscribeFromAllEvents ''tokA'' demo_scenario)))
      = filter (\<lambda>r. sub_sessionToken r \<noteq> ''tokA'') (sSESubscription (db demo_scenario))"
    by blast
  from t h have c: "map_of (clients (snd (unsubscribeFromAllEvents ''tokA'' demo_scenario))) ''c1''
      = map_option (\<lambda>c. if sessionToken c = Some ''tokA'' \<and> subscriptions c \<noteq> None
                           then c\<lparr>subscriptions := Some []\<rparr> else c)
          (map_of (clients demo_scenario) ''c1'')"
    by blast
  have d': "sSESubscription (db (snd (unsubscribeFromAllEvents ''tokA'' demo_scenario))) = []"
    unfolding d by (simp add: demo_scenario_eq)
  have c': "map_of (clients (snd (unsubscribeFromAllEvents ''tokA'' demo_scenario))) ''c1''
       = Some (client_c1\<lparr>subscriptions := Some []\<rparr>)"
    unfolding c b by (simp add: client_c1_def)
  from h a b r d' c' show ?thesis by blast
qed

section \<open>Removing clients\<close>

lemma end_try:
  "try_catch (res_end r) (\<lambda>err. log (g err)) m
     = (Returned (),
        m\<lparr>effects := effects m @ [End (conn r)],
          logs := (case end_throws r of None \<Rightarrow> logs m | Some e \<Rightarrow> logs m @ [''[SSEManager] '' @ g e])\<rparr>)"
  by (simp add: try_catch_def res_end_def log_def split: option.splits)

lemma db_try:
  "try_catch (db_write f) (\<lambda>err. log (g err)) m
     = (Returned (),
        (case faults m of
           Some e # fs \<Rightarrow> m\<lparr>faults := fs, logs := logs m @ [''[SSEManager] '' @ g e]\<rparr>
         | _ \<Rightarrow> m\<lparr>db := f (db m), faults := tl (faults m)\<rparr>))"
  by (simp add: try_catch_def db_write_def db_call_def log_def split: list.splits option.splits)

lemma db_try_clients: "clients (snd (try_catch (db_write f) (\<lambda>err. log (g err)) m)) = clients m"
  by (simp add: db_try split: list.splits option.splits)

lemma db_try_effects: "effects (snd (try_catch (db_write f) (\<lambda>err. log (g err)) m)) = effects m"
  by (simp add: db_try split: list.splits option.splits)


lemma mark_offline_choice_clients:
  "clients (snd ((case tok of
                  None \<Rightarrow> markSessionOffline now k
                | Some token \<Rightarrow>
                    if token \<noteq> [] then markSessionOfflineBySessionToken now token
                    else markSessionOffline now k) m)) = clients m"
  by (simp add: markSessionOffline_def markSessionOfflineBySessionToken_def db_try_clients
      split: option.splits)

lemma mark_offline_choice_effects:
  "effects (snd ((case tok of
                  None \<Rightarrow> markSessionOffline now k
                | Some token \<Rightarrow>
                    if token \<noteq> [] then markSessionOfflineBySessionToken now token
                    else markSessionOffline now k) m)) = effects m"
  by (simp add: markSessionOffline_def markSessionOfflineBySessionToken_def db_try_effects
      split: option.splits)

lemma mark_offline_choice_returns:
  "returns (case tok of
                  None \<Rightarrow> markSessionOffline now k
                | Some token \<Rightarrow>
                    if token \<noteq> [] then markSessionOfflineBySessionToken now token
                    else markSessionOffline now k)"
  by (simp add: markSessionOffline_returns markSessionOfflineBySessionToken_returns split: option.splits)

lemma seq4:
  assumes "returns a" "returns b" "returns c" "returns d"
  shows "seq [a, b, c, d] m = (Returned (), snd (d (snd (c (snd (b (snd (a m))))))))"
proof -
  have "seq [a, b, c, d] m = seq [] (snd (d (snd (c (snd (b (snd (a m))))))))"
    by (simp only: seq_step [OF assms(1)] seq_step [OF assms(2)] seq_step [OF assms(3)]
        seq_step [OF assms(4)])
  then show ?thesis by simp
qed

lemma removeClient_present:
  assumes c: "map_of (clients m) k = Some c"
  shows "clients (snd (removeClient now k m)) = AList.delete k (clients m)"
    and "effects (snd (removeClient now k m)) = effects m @ [End (conn (res c))]"
proof -
  let ?a = "try_catch (res_end (res c))
                 (\<lambda>err. log (''Error ending response for client '' @ k @ '': '' @ err))"
  let ?b = "(case sessionToken c of
                  None \<Rightarrow> markSessionOffline now k
                | Some token \<Rightarrow>
                    if token \<noteq> [] then markSessionOfflineBySessionToken now token
                    else markSessionOffline now k)"
  have eq: "removeClient now k m
      = (Returned (), snd (log (''Client disconnected: '' @ k) (snd (clients_delete k (snd (?b (snd (?a m))))))))"
    unfolding removeClient_def using c
    by (simp del: seq.simps
        add: seq4 [OF try_catch_returns [OF log_returns] mark_offline_choice_returns
                      clients_delete_returns log_returns])
  show "clients (snd (removeClient now k m)) = AList.delete k (clients m)"
    unfolding eq by (simp add: log_def clients_delete_def mark_offline_choice_clients end_try)
  show "effects (snd (removeClient now k m)) = effects m @ [End (conn (res c))]"
    unfolding eq by (simp add: log_def clients_delete_def mark_offline_choice_effects end_try)
qed

lemma removeClient_absent: "map_of (clients m) k = None \<Longrightarrow> removeClient now k m = (Returned (), m)"
  by (simp add: removeClient_def)

text \<open>
  The loops of \<open>addClient\<close> and of the session cleanup: each visited client that
  satisfies \<open>P\<close> is handed to an action \<open>A\<close> that deletes its entry. \<open>I\<close> is kept by
  every step; \<open>Q c k\<close> is what \<open>A k\<close> establishes for the client \<open>c\<close> it removes, and
  later steps keep it.
\<close>

lemma remove_each:
  fixes A :: "string \<Rightarrow> unit act"
  assumes del0: "\<forall>k c m. map_of (clients m) k = Some c \<longrightarrow>
                  fst (A k m) = Returned () \<and> clients (snd (A k m)) = AList.delete k (clients m)"
    and est0: "\<forall>k c m. I m \<and> map_of (clients m) k = Some c \<and> P c \<longrightarrow>
                  I (snd (A k m)) \<and> Q c k (snd (A k m))"
    and stab0: "\<forall>k c k' c' m. I m \<and> Q c k m \<and> map_of (clients m) k' = Some c' \<longrightarrow>
                  Q c k (snd (A k' m))"
  shows "I m \<Longrightarrow>
     fst (for_each ks (\<lambda>k m'. case map_of (clients m') k of None \<Rightarrow> (Returned (), m')
                              | Some c \<Rightarrow> if_then (P c) (A k) m') m) = Returned ()
     \<and> I (snd (for_each ks (\<lambda>k m'. case map_of (clients m') k of None \<Rightarrow> (Returned (), m')
                              | Some c \<Rightarrow> if_then (P c) (A k) m') m))
     \<and> (\<forall>k. map_of (clients (snd (for_each ks (\<lambda>k m'. case map_of (clients m') k of None \<Rightarrow> (Returned (), m')
                              | Some c \<Rightarrow> if_then (P c) (A k) m') m))) k
            = (case map_of (clients m) k of None \<Rightarrow> None
               | Some c \<Rightarrow> if k \<in> set ks \<and> P c then None else Some c))
     \<and> (\<forall>k c. k \<in> set ks \<and> map_of (clients m) k = Some c \<and> P c \<longrightarrow>
            Q c k (snd (for_each ks (\<lambda>k m'. case map_of (clients m') k of None \<Rightarrow> (Returned (), m')
                              | Some c \<Rightarrow> if_then (P c) (A k) m') m)))
     \<and> (\<forall>k c. Q c k m \<longrightarrow>
            Q c k (snd (for_each ks (\<lambda>k m'. case map_of (clients m') k of None \<Rightarrow> (Returned (), m')
                              | Some c \<Rightarrow> if_then (P c) (A k) m') m)))"
proof (induction ks arbitrary: m)
  case Nil
  then show ?case by (auto split: option.splits)
next
  case (Cons x ks)
  have del: "\<And>k c m. map_of (clients m) k = Some c \<Longrightarrow>
                  fst (A k m) = Returned () \<and> clients (snd (A k m)) = AList.delete k (clients m)"
    using del0 by blast
  have est: "\<And>k c m. I m \<Longrightarrow> map_of (clients m) k = Some c \<Longrightarrow> P c \<Longrightarrow>
                  I (snd (A k m)) \<and> Q c k (snd (A k m))"
    using est0 by blast
  have stab: "\<And>k c k' c' m. I m \<Longrightarrow> Q c k m \<Longrightarrow> map_of (clients m) k' = Some c' \<Longrightarrow>
                  Q c k (snd (A k' m))"
    using stab0 by blast
  let ?B = "\<lambda>k m'. case map_of (clients m') k of None \<Rightarrow> (Returned (), m')
                              | Some c \<Rightarrow> if_then (P c) (A k) m'"
  have "\<exists>m1. ?B x m = (Returned (), m1) \<and> I m1
          \<and> (\<forall>k. map_of (clients m1) k
                = (if k = x \<and> (\<exists>c. map_of (clients m) x = Some c \<and> P c) then None
                   else map_of (clients m) k))
          \<and> (\<forall>c. map_of (clients m) x = Some c \<and> P c \<longrightarrow> Q c x m1)
          \<and> (\<forall>k c. Q c k m \<longrightarrow> Q c k m1)"
  proof (cases "map_of (clients m) x")
    case None
    with Cons.prems show ?thesis by simp
  next
    case (Some cx)
    show ?thesis
    proof (cases "P cx")
      case False
      with Some Cons.prems show ?thesis by (simp add: if_then_def)
    next
      case True
      from del [OF Some] obtain m1 where r: "A x m = (Returned (), m1)"
        by (metis prod.collapse)
      then have m1: "snd (A x m) = m1" by simp
      have cl: "clients m1 = AList.delete x (clients m)"
        using del [OF Some] m1 by simp
      have "map_of (clients m1) k = (if k = x then None else map_of (clients m) k)" for k
        unfolding cl by (simp add: delete_conv')
      moreover have "I m1" "Q cx x m1"
        using est [OF Cons.prems Some True] m1 by simp_all
      moreover have "Q c k m1" if "Q c k m" for c k
        using stab [OF Cons.prems that Some] m1 by simp
      ultimately show ?thesis
        using Some True r by (simp add: if_then_def)
    qed
  qed
  then obtain m1 where b: "?B x m = (Returned (), m1)" and i1: "I m1"
    and c1: "\<And>k. map_of (clients m1) k
                = (if k = x \<and> (\<exists>c. map_of (clients m) x = Some c \<and> P c) then None
                   else map_of (clients m) k)"
    and q1: "\<And>c. map_of (clients m) x = Some c \<Longrightarrow> P c \<Longrightarrow> Q c x m1"
    and s1: "\<And>k c. Q c k m \<Longrightarrow> Q c k m1"
    by blast
  let ?m' = "snd (for_each ks ?B m1)"
  have step: "for_each (x # ks) ?B m = for_each ks ?B m1"
    using b by simp
  note ih = Cons.IH [OF i1]
  have r': "fst (for_each ks ?B m1) = Returned ()" and i': "I ?m'"
    and c': "\<And>k. map_of (clients ?m') k
            = (case map_of (clients m1) k of None \<Rightarrow> None
               | Some c \<Rightarrow> if k \<in> set ks \<and> P c then None else Some c)"
    and q': "\<And>k c. k \<in> set ks \<Longrightarrow> map_of (clients m1) k = Some c \<Longrightarrow> P c \<Longrightarrow> Q c k ?m'"
    and s': "\<And>k c. Q c k m1 \<Longrightarrow> Q c k ?m'"
    using ih by blast+
  have C: "map_of (clients ?m') k
            = (case map_of (clients m) k of None \<Rightarrow> None
               | Some c \<Rightarrow> if k \<in> set (x # ks) \<and> P c then None else Some c)" for k
    unfolding c' c1 by (auto split: option.splits)
  have Qn: "Q c k ?m'" if "k \<in> set (x # ks)" "map_of (clients m) k = Some c" "P c" for k c
  proof (cases "k = x")
    case True
    with that q1 s' show ?thesis by blast
  next
    case False
    with that have "k \<in> set ks" "map_of (clients m1) k = Some c" by (simp_all add: c1)
    with that(3) q' show ?thesis by blast
  qed
  have S: "Q c k ?m'" if "Q c k m" for k c
    using that s1 s' by blast
  show ?case
    unfolding step using r' i' C Qn S by blast
qed

lemma map_of_in_keys: "map_of al k = Some c \<Longrightarrow> k \<in> set (map fst al)"
  by (force dest: map_of_SomeD)

lemma remove_loop:
  fixes A :: "string \<Rightarrow> unit act"
  assumes del: "\<forall>k c m. map_of (clients m) k = Some c \<longrightarrow>
                  fst (A k m) = Returned () \<and> clients (snd (A k m)) = AList.delete k (clients m)"
    and est: "\<forall>k c m. I m \<and> map_of (clients m) k = Some c \<and> P c \<longrightarrow>
                  I (snd (A k m)) \<and> Q c k (snd (A k m))"
    and stab: "\<forall>k c k' c' m. I m \<and> Q c k m \<and> map_of (clients m) k' = Some c' \<longrightarrow>
                  Q c k (snd (A k' m))"
    and i: "I m"
  shows "fst (for_clients (\<lambda>k c. if_then (P c) (A k)) m) = Returned ()"
    and "I (snd (for_clients (\<lambda>k c. if_then (P c) (A k)) m))"
    and "map_of (clients (snd (for_clients (\<lambda>k c. if_then (P c) (A k)) m))) k
            = (case map_of (clients m) k of None \<Rightarrow> None
               | Some c \<Rightarrow> if P c then None else Some c)"
    and "map_of (clients m) k = Some c \<Longrightarrow> P c \<Longrightarrow>
            Q c k (snd (for_clients (\<lambda>k c. if_then (P c) (A k)) m))"
    and "Q c k m \<Longrightarrow> Q c k (snd (for_clients (\<lambda>k c. if_then (P c) (A k)) m))"
proof -
  note re = remove_each [of A I P Q m "map fst (clients m)", OF del est stab i, folded for_clients_def]
  show "fst (for_clients (\<lambda>k c. if_then (P c) (A k)) m) = Returned ()"
    using re by blast
  show "I (snd (for_clients (\<lambda>k c. if_then (P c) (A k)) m))"
    using re by blast
  have c: "map_of (clients (snd (for_clients (\<lambda>k c. if_then (P c) (A k)) m))) k
            = (case map_of (clients m) k of None \<Rightarrow> None
               | Some c \<Rightarrow> if k \<in> set (map fst (clients m)) \<and> P c then None else Some c)"
    using re by blast
  show "map_of (clients (snd (for_clients (\<lambda>k c. if_then (P c) (A k)) m))) k
            = (case map_of (clients m) k of None \<Rightarrow> None
               | Some c \<Rightarrow> if P c then None else Some c)"
  proof (cases "map_of (clients m) k")
    case None
    with c show ?thesis by simp
  next
    case (Some c0)
    then have "k \<in> set (map fst (clients m))" by (rule map_of_in_keys)
    with c Some show ?thesis by (simp del: set_map)
  qed
  show "Q c k (snd (for_clients (\<lambda>k c. if_then (P c) (A k)) m))"
    if "map_of (clients m) k = Some c" "P c"
  proof -
    have "k \<in> set (map fst (clients m))" using that(1) by (rule map_of_in_keys)
    with that re show ?thesis by blast
  qed
  show "Q c k (snd (for_clients (\<lambda>k c. if_then (P c) (A k)) m))" if "Q c k m"
    using that re by blast
qed

lemma updateSession_clients: "clients (snd (updateSession now c m)) = clients m"
  unfolding updateSession_def by (rule db_try_clients)

lemma updateSession_effects: "effects (snd (updateSession now c m)) = effects m"
  unfolding updateSession_def by (rule db_try_effects)

lemma removeClient_del:
  "map_of (clients m) k = Some c \<Longrightarrow>
     fst (removeClient now k m) = Returned ()
     \<and> clients (snd (removeClient now k m)) = AList.delete k (clients m)"
  using removeClient_returns [of now k] removeClient_present(1) [of m k c now]
  by (simp add: returns_def)

lemma removeClient_effects_grow:
  "e \<in> set (effects m) \<Longrightarrow> e \<in> set (effects (snd (removeClient now k m)))"
  by (cases "map_of (clients m) k") (simp_all add: removeClient_absent removeClient_present(2))

lemma addClient_eq:
  "addClient now client m
     = (Returned (),
        snd (log (''Client connected: '' @ id_client client @ '' (Session: ''
                 @ or_else (sessionToken client) ''anonymous'' @ '')'')
          (snd (updateSession now client
            (snd (clients_set (id_client client) client
              (snd (if_then (truthy (sessionToken client))
                 (for_clients (\<lambda>k c.
                    if_then (sessionToken c = sessionToken client) (removeClient now k))) m))))))))"
  unfolding addClient_def
  by (rule seq4) (intro returns_intros removeClient_returns updateSession_returns)+

lemma addClient_truthy:
  assumes t: "sessionToken client = Some t" "t \<noteq> []"
  shows "map_of (clients (snd (addClient now client m))) k
      = (if k = id_client client then Some client
         else case map_of (clients m) k of None \<Rightarrow> None
              | Some c \<Rightarrow> if sessionToken c = Some t then None else Some c)"
    and "map_of (clients m) k = Some c \<Longrightarrow> sessionToken c = Some t \<Longrightarrow>
           End (conn (res c)) \<in> set (effects (snd (addClient now client m)))"
    and "e \<in> set (effects m) \<Longrightarrow> e \<in> set (effects (snd (addClient now client m)))"
proof -
  let ?Q = "\<lambda>c (k::string) m. End (conn (res c)) \<in> set (effects m)"
  let ?loop = "for_clients (\<lambda>k c. if_then (sessionToken c = Some t) (removeClient now k))"
  have tr: "truthy (sessionToken client)" using t by (simp add: truthy_def)
  have m1: "snd (if_then (truthy (sessionToken client))
                 (for_clients (\<lambda>k c.
                    if_then (sessionToken c = sessionToken client) (removeClient now k))) m)
            = snd (?loop m)"
    using tr t by (simp add: if_then_def)
  have del: "\<forall>k c m. map_of (clients m) k = Some c \<longrightarrow>
                  fst (removeClient now k m) = Returned ()
                  \<and> clients (snd (removeClient now k m)) = AList.delete k (clients m)"
    by (simp add: removeClient_del)
  have est: "\<forall>k c m. I m \<and> map_of (clients m) k = Some c \<and> sessionToken c = Some t \<longrightarrow>
                I (snd (removeClient now k m)) \<and> ?Q c k (snd (removeClient now k m))"
    if "\<And>k m. I m \<Longrightarrow> I (snd (removeClient now k m))" for I
    using that by (simp add: removeClient_present(2))
  have stab: "\<forall>k c k' c' m. I m \<and> ?Q c k m \<and> map_of (clients m) k' = Some c' \<longrightarrow>
                ?Q c k (snd (removeClient now k' m))" for I :: "manager \<Rightarrow> bool"
    by (simp add: removeClient_effects_grow)
  have L1: "map_of (clients (snd (?loop m))) k
            = (case map_of (clients m) k of None \<Rightarrow> None
               | Some c \<Rightarrow> if sessionToken c = Some t then None else Some c)" for k
    by (rule remove_loop(3) [OF del est [of "\<lambda>_. True"] stab]) simp_all
  have L2: "End (conn (res c)) \<in> set (effects (snd (?loop m)))"
    if "map_of (clients m) k = Some c" "sessionToken c = Some t" for k c
    by (rule remove_loop(4) [OF del est [of "\<lambda>_. True"] stab _ that]) simp_all
  have L3: "e \<in> set (effects (snd (?loop m)))" if "e \<in> set (effects m)"
    by (rule remove_loop(2) [OF del est [of "\<lambda>m. e \<in> set (effects m)"] stab that])
       (rule removeClient_effects_grow)
  have cl: "clients (snd (addClient now client m))
      = AList.update (id_client client) client (clients (snd (?loop m)))"
    unfolding addClient_eq by (simp add: log_def updateSession_clients clients_set_def m1)
  have ef: "effects (snd (addClient now client m)) = effects (snd (?loop m))"
    unfolding addClient_eq by (simp add: log_def updateSession_effects clients_set_def m1)
  show "map_of (clients (snd (addClient now client m))) k
      = (if k = id_client client then Some client
         else case map_of (clients m) k of None \<Rightarrow> None
              | Some c \<Rightarrow> if sessionToken c = Some t then None else Some c)"
    unfolding cl by (simp add: update_conv' L1)
  show "End (conn (res c)) \<in> set (effects (snd (addClient now client m)))"
    if "map_of (clients m) k = Some c" "sessionToken c = Some t"
    unfolding ef using that by (rule L2)
  show "e \<in> set (effects (snd (addClient now client m)))" if "e \<in> set (effects m)"
    unfolding ef using that by (rule L3)
qed

section \<open>One live connection per session\<close>

lemma shrinks_rt: "refl_trans shrinks"
proof (rule refl_transI)
  show "shrinks m m" for m
    unfolding shrinks_def by (rule exI [of _ "\<lambda>_. True"]) simp
next
  fix a b c
  assume "shrinks a b" "shrinks b c"
  then obtain S T where "keyed_tokens b = filter S (keyed_tokens a)"
    "keyed_tokens c = filter T (keyed_tokens b)"
    unfolding shrinks_def by blast
  then have "keyed_tokens c = filter (\<lambda>x. S x \<and> T x) (keyed_tokens a)" by simp
  then show "shrinks a c" unfolding shrinks_def by blast
qed

lemma shrinks_same: "clients m' = clients m \<Longrightarrow> shrinks m m'"
  unfolding shrinks_def keyed_tokens_def by (rule exI [of _ "\<lambda>_. True"]) simp

lemma same_clients_shrinks: "stays_in same_clients a \<Longrightarrow> stays_in shrinks a"
  by (simp add: stays_in_def same_clients_def shrinks_same)

lemma log_shrinks: "stays_in shrinks (log msg)"
  by (simp add: stays_in_def log_def shrinks_same)

lemma throw_shrinks: "stays_in shrinks (throw e)"
  by (simp add: stays_in_def throw_def shrinks_same)

lemma db_write_shrinks: "stays_in shrinks (db_write f)"
  unfolding db_write_def by (rule same_clients_shrinks [OF db_call_same_clients])

lemma res_write_shrinks: "stays_in shrinks (res_write r chunk)"
  by (simp add: stays_in_def res_write_def shrinks_same split: option.splits)

lemma res_end_shrinks: "stays_in shrinks (res_end r)"
  by (simp add: stays_in_def res_end_def shrinks_same split: option.splits)

lemma clients_delete_shrinks: "stays_in shrinks (clients_delete k)"
proof -
  have "keyed_tokens (snd (clients_delete k m)) = filter (\<lambda>(k', t). k \<noteq> k') (keyed_tokens m)" for m
    by (simp add: clients_delete_def keyed_tokens_def AList.delete_eq filter_map comp_def
        case_prod_unfold)
  then show ?thesis
    unfolding stays_in_def shrinks_def by blast
qed

lemma modify_client_shrinks:
  assumes "\<And>c. sessionToken (f c) = sessionToken c"
  shows "stays_in shrinks (modify_client k f)"
proof -
  have "keyed_tokens (snd (modify_client k f m)) = keyed_tokens m" for m
    by (simp add: modify_client_def keyed_tokens_def assms case_prod_unfold)
  then have "shrinks m (snd (modify_client k f m))" for m
    unfolding shrinks_def by (intro exI [of _ "\<lambda>_. True"]) simp
  then show ?thesis by (simp add: stays_in_def)
qed

lemma db_try_shrinks: "stays_in shrinks (try_catch (db_write f) (\<lambda>err. log (g err)))"
  by (intro stays_in_intros shrinks_rt db_write_shrinks log_shrinks)

lemma removeClient_shrinks: "stays_in shrinks (removeClient now k)"
proof -
  have "shrinks m (snd (removeClient now k m))" for m
  proof (cases "map_of (clients m) k")
    case None
    then show ?thesis by (simp add: removeClient_absent shrinks_same)
  next
    case (Some c)
    have "keyed_tokens (snd (removeClient now k m)) = keyed_tokens (snd (clients_delete k m))"
      by (simp add: keyed_tokens_def removeClient_present(1) [OF Some] clients_delete_def)
    moreover have "shrinks m (snd (clients_delete k m))"
      using clients_delete_shrinks by (simp add: stays_in_def)
    ultimately show ?thesis by (simp add: shrinks_def)
  qed
  then show ?thesis by (simp add: stays_in_def)
qed

lemma subscribeToEvent_shrinks: "stays_in shrinks (subscribeToEvent t e c)"
  unfolding subscribeToEvent_def
  by (intro stays_in_intros shrinks_rt db_write_shrinks log_shrinks modify_client_shrinks)
     (simp add: Let_def)

lemma unsubscribeFromEvent_shrinks: "stays_in shrinks (unsubscribeFromEvent t e c)"
  unfolding unsubscribeFromEvent_def
  by (intro stays_in_intros shrinks_rt db_write_shrinks log_shrinks modify_client_shrinks) simp

lemma unsubscribeFromAllEvents_shrinks: "stays_in shrinks (unsubscribeFromAllEvents t)"
  unfolding unsubscribeFromAllEvents_def
  by (intro stays_in_intros shrinks_rt db_write_shrinks log_shrinks throw_shrinks
        modify_client_shrinks) simp

lemma heartbeat_shrinks: "stays_in shrinks (heartbeat now)"
  unfolding heartbeat_def updateSessionPing_def
  by (intro stays_in_intros shrinks_rt res_write_shrinks db_try_shrinks log_shrinks
        removeClient_shrinks modify_client_shrinks) simp

lemma sessionCleanup_shrinks: "stays_in shrinks (sessionCleanup now)"
  unfolding sessionCleanup_def markSessionOffline_def
  by (intro stays_in_intros shrinks_rt db_write_shrinks db_try_shrinks log_shrinks
        removeClient_shrinks)

lemma cleanup_shrinks: "stays_in shrinks cleanup"
proof -
  have "stays_in shrinks (\<lambda>m. (Returned (), m\<lparr>clients := []\<rparr>))"
    unfolding stays_in_def shrinks_def keyed_tokens_def
    by (intro allI exI [of _ "\<lambda>_. False"]) simp
  then show ?thesis
    unfolding cleanup_def
    by (intro stays_in_intros shrinks_rt res_end_shrinks log_shrinks)
qed

lemma invariant_shrinks:
  assumes inv: "one_connection_per_session m" and sh: "shrinks m m'"
  shows "one_connection_per_session m'"
proof -
  from sh obtain S where k: "keyed_tokens m' = filter S (keyed_tokens m)"
    unfolding shrinks_def by blast
  have 1: "distinct (map fst (keyed_tokens m'))"
    unfolding k using inv by (simp add: one_connection_per_session_def distinct_map_filter)
  have e: "filter truthy (map snd (filter S (keyed_tokens m)))
      = map snd (filter S (filter (\<lambda>x. truthy (snd x)) (keyed_tokens m)))"
    by (simp add: filter_map comp_def conj_commute)
  have d: "distinct (map snd (filter (\<lambda>x. truthy (snd x)) (keyed_tokens m)))"
    using inv by (simp add: one_connection_per_session_def filter_map comp_def)
  have 2: "distinct (filter truthy (map snd (keyed_tokens m')))"
    unfolding k e using d by (rule distinct_map_filter)
  from 1 2 show ?thesis by (simp add: one_connection_per_session_def)
qed

lemma invariant_step:
  "stays_in shrinks a \<Longrightarrow> one_connection_per_session m \<Longrightarrow> one_connection_per_session (snd (a m))"
  using invariant_shrinks by (simp add: stays_in_def)

lemma keyed_tokens_update:
  "map (\<lambda>(k, c). (k, sessionToken c)) (AList.update k v al)
     = AList.update k (sessionToken v) (map (\<lambda>(k, c). (k, sessionToken c)) al)"
  by (induction al) auto

lemma update_values_subset: "snd ` set (AList.update k t al) \<subseteq> insert t (snd ` set al)"
  by (induction al) auto

lemma update_tokens_distinct:
  assumes "distinct (filter truthy (map snd al))"
    and "truthy t \<longrightarrow> t \<notin> snd ` set al"
  shows "distinct (filter truthy (map snd (AList.update k t al)))"
  using assms
proof (induction al)
  case Nil
  then show ?case by simp
next
  case (Cons p al)
  obtain k' t' where p: "p = (k', t')" by (cases p)
  show ?case
  proof (cases "k' = k")
    case True
    with Cons.prems p show ?thesis by (auto split: if_splits)
  next
    case False
    have ih: "distinct (filter truthy (map snd (AList.update k t al)))"
      using Cons by (auto split: if_splits)
    have "t' \<notin> snd ` set (AList.update k t al)" if "truthy t'"
    proof -
      have "t' \<notin> snd ` set al" using Cons.prems(1) p that by auto
      moreover have "t' \<noteq> t" using Cons.prems(2) p that by auto
      ultimately show ?thesis using update_values_subset [of k t al] by blast
    qed
    with ih False p show ?thesis by auto
  qed
qed

lemma addClient_invariant:
  assumes inv: "one_connection_per_session m"
  shows "one_connection_per_session (snd (addClient now client m))"
proof -
  let ?loop = "if_then (truthy (sessionToken client))
                 (for_clients (\<lambda>k c.
                    if_then (sessionToken c = sessionToken client) (removeClient now k)))"
  let ?m1 = "snd (?loop m)"
  have "stays_in shrinks ?loop"
    by (intro stays_in_intros shrinks_rt removeClient_shrinks)
  then have inv1: "one_connection_per_session ?m1"
    using inv by (rule invariant_step)
  have cl: "clients (snd (addClient now client m))
      = AList.update (id_client client) client (clients ?m1)"
    unfolding addClient_eq by (simp add: log_def updateSession_clients clients_set_def)
  have kt: "keyed_tokens (snd (addClient now client m))
      = AList.update (id_client client) (sessionToken client) (keyed_tokens ?m1)"
    unfolding keyed_tokens_def cl by (rule keyed_tokens_update)
  have fresh: "sessionToken client \<notin> snd ` set (keyed_tokens ?m1)" if tr: "truthy (sessionToken client)"
  proof
    assume "sessionToken client \<in> snd ` set (keyed_tokens ?m1)"
    then obtain k c where kc: "(k, c) \<in> set (clients ?m1)" and tc: "sessionToken c = sessionToken client"
      unfolding keyed_tokens_def by auto
    from tr obtain t where t: "sessionToken client = Some t" "t \<noteq> []"
      by (auto simp: truthy_def split: option.splits)
    have d: "distinct (map fst (clients ?m1))"
      using inv1 by (simp add: one_connection_per_session_def keyed_tokens_def comp_def case_prod_unfold)
    from kc d have look: "map_of (clients ?m1) k = Some c" by simp
    have del: "\<forall>k c m. map_of (clients m) k = Some c \<longrightarrow>
                  fst (removeClient now k m) = Returned ()
                  \<and> clients (snd (removeClient now k m)) = AList.delete k (clients m)"
      by (simp add: removeClient_del)
    have "map_of (clients (snd (for_clients (\<lambda>k c.
                    if_then (sessionToken c = Some t) (removeClient now k)) m))) k
            = (case map_of (clients m) k of None \<Rightarrow> None
               | Some c \<Rightarrow> if sessionToken c = Some t then None else Some c)"
      by (rule remove_loop(3) [OF del, of "\<lambda>_. True" _ "\<lambda>_ _ _. True"]) simp_all
    moreover have "?m1 = snd (for_clients (\<lambda>k c.
                    if_then (sessionToken c = Some t) (removeClient now k)) m)"
      using tr t by (simp add: if_then_def)
    ultimately have "map_of (clients ?m1) k
            = (case map_of (clients m) k of None \<Rightarrow> None
               | Some c \<Rightarrow> if sessionToken c = Some t then None else Some c)"
      by simp
    with look tc t show False by (auto split: option.splits if_splits)
  qed
  have 1: "distinct (map fst (keyed_tokens (snd (addClient now client m))))"
    unfolding kt using inv1 by (simp add: one_connection_per_session_def distinct_update)
  have 2: "distinct (filter truthy (map snd (keyed_tokens (snd (addClient now client m)))))"
    unfolding kt using inv1 fresh
    by (intro update_tokens_distinct) (auto simp: one_connection_per_session_def)
  from 1 2 show ?thesis by (simp add: one_connection_per_session_def)
qed

lemma reachable_invariant: "reachable m \<Longrightarrow> one_connection_per_session m"
proof (induction rule: reachable.induct)
  case reach_initial
  show ?case by (simp add: one_connection_per_session_def keyed_tokens_def initial_def)
next
  case (reach_faults m fs)
  from reach_faults.IH show ?case by (simp add: one_connection_per_session_def keyed_tokens_def)
next
  case (reach_addClient m now client)
  from reach_addClient.IH show ?case by (rule addClient_invariant)
next
  case (reach_removeClient m now clientId)
  from reach_removeClient.IH show ?case by (rule invariant_step [OF removeClient_shrinks])
next
  case (reach_sendEventToClient m clientId ev)
  from reach_sendEventToClient.IH show ?case
    by (rule invariant_step [OF same_clients_shrinks [OF sendEventToClient_same_clients]])
next
  case (reach_sendEventToUser m token ev)
  from reach_sendEventToUser.IH show ?case
    by (rule invariant_step [OF same_clients_shrinks [OF sendEventToUser_same_clients]])
next
  case (reach_sendEventToSubscribers m eventName ev)
  from reach_sendEventToSubscribers.IH show ?case
    by (rule invariant_step [OF same_clients_shrinks [OF sendEventToSubscribers_same_clients]])
next
  case (reach_broadcast m ev)
  from reach_broadcast.IH show ?case
    by (rule invariant_step [OF same_clients_shrinks [OF broadcast_same_clients]])
next
  case (reach_subscribeToEvent m token eventName cid)
  from reach_subscribeToEvent.IH show ?case by (rule invariant_step [OF subscribeToEvent_shrinks])
next
  case (reach_unsubscribeFromEvent m token eventName cid)
  from reach_unsubscribeFromEvent.IH show ?case by (rule invariant_step [OF unsubscribeFromEvent_shrinks])
next
  case (reach_unsubscribeFromAllEvents m token)
  from reach_unsubscribeFromAllEvents.IH show ?case by (rule invariant_step [OF unsubscribeFromAllEvents_shrinks])
next
  case (reach_heartbeat m now)
  from reach_heartbeat.IH show ?case by (rule invariant_step [OF heartbeat_shrinks])
next
  case (reach_sessionCleanup m now)
  from reach_sessionCleanup.IH show ?case by (rule invariant_step [OF sessionCleanup_shrinks])
next
  case (reach_cleanup m)
  from reach_cleanup.IH show ?case by (rule invariant_step [OF cleanup_shrinks])
qed

lemma invariant_at_most_one:
  assumes inv: "one_connection_per_session m"
    and a: "map_of (clients m) k = Some c" and b: "map_of (clients m) k' = Some c'"
    and t: "sessionToken c = sessionToken c'" and tr: "truthy (sessionToken c)"
  shows "k = k'"
proof (rule ccontr)
  assume ne: "k \<noteq> k'"
  let ?xs = "filter (\<lambda>x. truthy (snd x)) (keyed_tokens m)"
  have d: "distinct (map snd ?xs)"
    using inv by (simp add: one_connection_per_session_def filter_map comp_def)
  have "(k, sessionToken c) \<in> set (keyed_tokens m)"
    using map_of_SomeD [OF a] by (force simp: keyed_tokens_def)
  moreover have "(k', sessionToken c) \<in> set (keyed_tokens m)"
    using map_of_SomeD [OF b] t by (force simp: keyed_tokens_def)
  ultimately have "(k, sessionToken c) \<in> set ?xs" "(k', sessionToken c) \<in> set ?xs"
    using tr by simp_all
  with d have "(k, sessionToken c) = (k', sessionToken c)"
    unfolding distinct_map by (intro inj_onD [of snd "set ?xs"]) simp_all
  with ne show False by simp
qed

lemma for_each_step:
  "returns (body x) \<Longrightarrow> for_each (x # xs) body m = for_each xs body (snd (body x m))"
proof -
  assume r: "returns (body x)"
  obtain m1 where "body x m = (Returned (), m1)"
    using returns_eq [OF r] by blast
  then show ?thesis by simp
qed

lemma for_each_append:
  assumes r: "\<And>x. returns (body x)"
  shows "for_each (xs @ ys) body m = for_each ys body (snd (for_each xs body m))"
proof (induction xs arbitrary: m)
  case Nil
  show ?case by simp
next
  case (Cons x xs)
  show ?case
    unfolding append_Cons for_each_step [OF r] by (rule Cons.IH)
qed

lemma for_each_single: "returns (body x) \<Longrightarrow> for_each [x] body m = (Returned (), snd (body x m))"
proof -
  assume r: "returns (body x)"
  obtain m1 where "body x m = (Returned (), m1)"
    using returns_eq [OF r] by blast
  then show ?thesis by simp
qed

lemma addClient_calls_returns: "returns (case p of (now, client) \<Rightarrow> addClient now client)"
  by (cases p) (simp add: addClient_returns)

lemma addClient_calls_snoc:
  "snd (for_each (calls @ [(now, client)]) (\<lambda>(now, client). addClient now client) m)
     = snd (addClient now client (snd (for_each calls (\<lambda>(now, client). addClient now client) m)))"
proof -
  let ?B = "\<lambda>(now, client). addClient now client"
  have "for_each (calls @ [(now, client)]) ?B m = for_each [(now, client)] ?B (snd (for_each calls ?B m))"
    by (rule for_each_append) (rule addClient_calls_returns)
  also have "\<dots> = (Returned (), snd (?B (now, client) (snd (for_each calls ?B m))))"
    by (rule for_each_single) (rule addClient_calls_returns)
  finally show ?thesis by simp
qed

lemma addClient_calls_map:
  assumes ne: "calls \<noteq> []"
    and tok: "\<forall>c\<in>set (map snd calls). sessionToken c = Some t" and t: "t \<noteq> []"
  shows "map_of (clients (snd (for_each calls (\<lambda>(now, client). addClient now client) m))) k
      = (if k = id_client (snd (last calls)) then Some (snd (last calls))
         else case map_of (clients m) k of None \<Rightarrow> None
              | Some c \<Rightarrow> if sessionToken c = Some t \<or> k \<in> set (map (id_client \<circ> snd) calls)
                          then None else Some c)"
  using ne tok
proof (induction calls arbitrary: k rule: rev_nonempty_induct)
  case (single x)
  obtain now client where x: "x = (now, client)" by (cases x)
  with single have tc: "sessionToken client = Some t" by simp
  have "for_each [x] (\<lambda>(now, client). addClient now client) m
      = (Returned (), snd (addClient now client m))"
    unfolding x using for_each_single [of "\<lambda>(now, client). addClient now client" "(now, client)" m,
        OF addClient_calls_returns] by simp
  then show ?case
    using addClient_truthy(1) [OF tc t, of now m k] x by (auto split: option.splits)
next
  case (snoc x xs)
  obtain now client where x: "x = (now, client)" by (cases x)
  with snoc.prems have tc: "sessionToken client = Some t" by simp
  from snoc.prems have tl: "sessionToken (snd (last xs)) = Some t"
    using snoc.hyps by simp
  let ?m1 = "snd (for_each xs (\<lambda>(now, client). addClient now client) m)"
  have ih: "map_of (clients ?m1) k
      = (if k = id_client (snd (last xs)) then Some (snd (last xs))
         else case map_of (clients m) k of None \<Rightarrow> None
              | Some c \<Rightarrow> if sessionToken c = Some t \<or> k \<in> set (map (id_client \<circ> snd) xs)
                          then None else Some c)" for k
    using snoc.IH snoc.prems by simp
  have lastin: "id_client (snd (last xs)) \<in> set (map (id_client \<circ> snd) xs)"
    using snoc.hyps by simp
  show ?case
    unfolding x addClient_calls_snoc addClient_truthy(1) [OF tc t] ih
    using tl lastin by (auto split: option.splits)
qed

lemma addClient_calls_effects_grow:
  "e \<in> set (effects m) \<Longrightarrow>
     e \<in> set (effects (snd (for_each calls (\<lambda>(now, client). addClient now client) m)))"
proof (induction calls rule: rev_induct)
  case Nil
  then show ?case by simp
next
  case (snoc x xs)
  obtain now client where x: "x = (now, client)" by (cases x)
  have g: "e \<in> set (effects (snd (addClient now client m')))" if "e \<in> set (effects m')" for m'
  proof (cases "truthy (sessionToken client)")
    case True
    then obtain t where "sessionToken client = Some t" "t \<noteq> []"
      by (auto simp: truthy_def split: option.splits)
    then show ?thesis using that by (rule addClient_truthy(3))
  next
    case False
    have "effects (snd (addClient now client m')) = effects m'"
      unfolding addClient_eq using False
      by (simp add: log_def updateSession_effects clients_set_def if_then_def)
    with that show ?thesis by simp
  qed
  show ?case
    unfolding x addClient_calls_snoc using snoc by (intro g) simp
qed

lemma addClient_calls_closed:
  assumes ne: "calls \<noteq> []"
    and tok: "\<forall>c\<in>set (map snd calls). sessionToken c = Some t" and t: "t \<noteq> []"
  shows "\<forall>c\<in>set (map snd (butlast calls)).
           End (conn (res c)) \<in> set (effects (snd (for_each calls (\<lambda>(now, client). addClient now client) m)))"
  using ne tok
proof (induction calls rule: rev_nonempty_induct)
  case (single x)
  show ?case by simp
next
  case (snoc x xs)
  obtain now client where x: "x = (now, client)" by (cases x)
  with snoc.prems have tc: "sessionToken client = Some t" by simp
  have tokxs: "\<forall>c\<in>set (map snd xs). sessionToken c = Some t"
    using snoc.prems by simp
  let ?m1 = "snd (for_each xs (\<lambda>(now, client). addClient now client) m)"
  have "End (conn (res c)) \<in> set (effects (snd (addClient now client ?m1)))"
    if c: "c \<in> set (map snd xs)" for c
  proof -
    from c obtain y where y: "y \<in> set xs" "c = snd y" by auto
    have "xs = butlast xs @ [last xs]" using snoc.hyps by simp
    then have "y \<in> set (butlast xs) \<or> y = last xs"
      using y(1) by (metis Un_iff empty_iff insert_iff list.set(1) list.set(2) set_append)
    then show ?thesis
    proof
      assume "y \<in> set (butlast xs)"
      then have "c \<in> set (map snd (butlast xs))" using y(2) by simp
      then have "End (conn (res c)) \<in> set (effects ?m1)"
        using snoc.IH tokxs by blast
      then show ?thesis
        by (rule addClient_truthy(3) [OF tc t])
    next
      assume "y = last xs"
      then have cl: "c = snd (last xs)" using y(2) by simp
      have "map_of (clients ?m1) (id_client c) = Some c"
        unfolding cl using addClient_calls_map [OF snoc.hyps tokxs t, of m "id_client (snd (last xs))"]
        by simp
      moreover have "sessionToken c = Some t" using tokxs c by blast
      ultimately show ?thesis
        by (rule addClient_truthy(2) [OF tc t])
    qed
  qed
  then show ?case
    unfolding x addClient_calls_snoc by simp
qed

text \<open>
  Claim C4. Take any sequence of \<open>addClient\<close> calls whose clients all carry the same
  non-empty session token \<open>t\<close>, with pairwise distinct ids, run from any state. Every
  call returns. Afterwards the client added last is in the map under its id; no other
  entry of the map carries the token \<open>t\<close>; each client added earlier is absent from the
  map and \<open>end\<close> was called on its connection; an entry of another session is still
  there exactly when its id was not taken by one of the added clients. And in every
  state the manager can reach, the map has no key twice and no two entries with the same
  non-empty session token.
\<close>

theorem single_connection_per_session:
  assumes ne: "calls \<noteq> []"
    and tok: "\<forall>c\<in>set (map snd calls). sessionToken c = Some t" and t: "t \<noteq> []"
    and ids: "distinct (map (id_client \<circ> snd) calls)"
  shows "fst (for_each calls (\<lambda>(now, client). addClient now client) m) = Returned ()
    \<and> (\<forall>k. map_of (clients (snd (for_each calls (\<lambda>(now, client). addClient now client) m))) k
          = (if k = id_client (snd (last calls)) then Some (snd (last calls))
             else case map_of (clients m) k of None \<Rightarrow> None
                  | Some c \<Rightarrow> if sessionToken c = Some t \<or> k \<in> set (map (id_client \<circ> snd) calls)
                              then None else Some c))
    \<and> (\<forall>k c. map_of (clients (snd (for_each calls (\<lambda>(now, client). addClient now client) m))) k = Some c
              \<and> sessionToken c = Some t \<longrightarrow> k = id_client (snd (last calls)) \<and> c = snd (last calls))
    \<and> (\<forall>c\<in>set (map snd (butlast calls)).
          map_of (clients (snd (for_each calls (\<lambda>(now, client). addClient now client) m))) (id_client c) = None
          \<and> End (conn (res c)) \<in> set (effects (snd (for_each calls (\<lambda>(now, client). addClient now client) m))))
    \<and> (\<forall>s. reachable s \<longrightarrow>
          distinct (map fst (clients s))
          \<and> (\<forall>k k' c c'. map_of (clients s) k = Some c \<and> map_of (clients s) k' = Some c'
                \<and> sessionToken c = sessionToken c' \<and> truthy (sessionToken c) \<longrightarrow> k = k'))"
proof -
  let ?m' = "snd (for_each calls (\<lambda>(now, client). addClient now client) m)"
  have 1: "fst (for_each calls (\<lambda>(now, client). addClient now client) m) = Returned ()"
    using for_each_returns [of "\<lambda>(now, client). addClient now client" calls, OF addClient_calls_returns]
    by (simp add: returns_def)
  note 2 = addClient_calls_map [OF ne tok t, of m]
  have 3: "k = id_client (snd (last calls)) \<and> c = snd (last calls)"
    if "map_of (clients ?m') k = Some c" "sessionToken c = Some t" for k c
    using that unfolding 2 by (auto split: option.splits if_splits)
  have 4: "map_of (clients ?m') (id_client c) = None
          \<and> End (conn (res c)) \<in> set (effects ?m')"
    if c: "c \<in> set (map snd (butlast calls))" for c
  proof -
    have cs: "calls = butlast calls @ [last calls]" using ne by simp
    from c obtain y where y: "y \<in> set (butlast calls)" "c = snd y" by auto
    have "distinct (map (id_client \<circ> snd) (butlast calls @ [last calls]))"
      using ids cs by simp
    then have "id_client (snd (last calls)) \<notin> set (map (id_client \<circ> snd) (butlast calls))"
      by simp
    moreover have "id_client c \<in> set (map (id_client \<circ> snd) (butlast calls))"
      using y by force
    ultimately have neq: "id_client c \<noteq> id_client (snd (last calls))"
      by metis
    have "y \<in> set calls" using y(1) by (rule in_set_butlastD)
    then have "id_client c \<in> set (map (id_client \<circ> snd) calls)"
      using y(2) by force
    with neq have "map_of (clients ?m') (id_client c) = None"
      unfolding 2 by (simp split: option.splits)
    moreover have "End (conn (res c)) \<in> set (effects ?m')"
      using addClient_calls_closed [OF ne tok t, of m] c by blast
    ultimately show ?thesis by simp
  qed
  have 5: "distinct (map fst (clients s))
          \<and> (\<forall>k k' c c'. map_of (clients s) k = Some c \<and> map_of (clients s) k' = Some c'
                \<and> sessionToken c = sessionToken c' \<and> truthy (sessionToken c) \<longrightarrow> k = k')"
    if r: "reachable s" for s
  proof -
    have inv: "one_connection_per_session s" using r by (rule reachable_invariant)
    then have "distinct (map fst (clients s))"
      by (simp add: one_connection_per_session_def keyed_tokens_def comp_def case_prod_unfold)
    moreover have "k = k'" if "map_of (clients s) k = Some c" "map_of (clients s) k' = Some c'"
        "sessionToken c = sessionToken c'" "truthy (sessionToken c)" for k k' c c'
      using inv that by (rule invariant_at_most_one)
    ultimately show ?thesis by blast
  qed
  from 1 2 3 4 5 show ?thesis by blast
qed

lemma reachable_demo_scenario: "reachable demo_scenario"
proof -
  have "seq [addClient 0 client_c1, subscribeToEvent ''tokA'' ''demo-event'' None] initial
      = subscribeToEvent ''tokA'' ''demo-event'' None (snd (addClient 0 client_c1 initial))"
    by (rule seq2 [OF addClient_returns])
  then have "demo_scenario
      = snd (subscribeToEvent ''tokA'' ''demo-event'' None (snd (addClient 0 client_c1 initial)))"
    by (simp add: demo_scenario_def del: seq.simps)
  then have e: "demo_scenario
      = snd (subscribeToEvent ''tokA'' ''demo-event'' None (snd (addClient 0 client_c1 initial)))" .
  show ?thesis
    unfolding e by (intro reach_subscribeToEvent reach_addClient reach_initial)
qed

theorem single_connection_per_session_witness:
  "sessionToken client_c1 = Some ''tokA'' \<and> sessionToken client_c2 = Some ''tokA''
   \<and> id_client client_c1 \<noteq> id_client client_c2
   \<and> clients (snd (for_each [(0, client_c1), (5, client_c2)]
                      (\<lambda>(now, client). addClient now client) initial)) = [(''c2'', client_c2)]
   \<and> map_of (clients (snd (for_each [(0, client_c1), (5, client_c2)]
                      (\<lambda>(now, client). addClient now client) initial))) ''c1'' = None
   \<and> End 1 \<in> set (effects (snd (for_each [(0, client_c1), (5, client_c2)]
                      (\<lambda>(now, client). addClient now client) initial)))
   \<and> reachable demo_scenario
   \<and> distinct (map fst (clients demo_scenario))"
proof -
  let ?calls = "[(0 :: int, client_c1), (5, client_c2)]"
  have a: "sessionToken client_c1 = Some ''tokA''" "sessionToken client_c2 = Some ''tokA''"
    by (simp_all add: client_c1_def client_c2_def)
  have b: "id_client client_c1 \<noteq> id_client client_c2"
    by (simp add: client_c1_def client_c2_def)
  have h1: "?calls \<noteq> []" by simp
  have h2: "\<forall>c\<in>set (map snd ?calls). sessionToken c = Some ''tokA''"
    using a by simp
  have h3: "''tokA'' \<noteq> []" by simp
  have h4: "distinct (map (id_client \<circ> snd) ?calls)"
    using b by simp
  note t = single_connection_per_session [OF h1 h2 h3 h4, of initial]
  have c: "clients (snd (for_each ?calls (\<lambda>(now, client). addClient now client) initial))
      = [(''c2'', client_c2)]"
    by code_simp
  from t have "\<forall>c\<in>set (map snd (butlast ?calls)).
          map_of (clients (snd (for_each ?calls (\<lambda>(now, client). addClient now client) initial)))
            (id_client c) = None
          \<and> End (conn (res c)) \<in> set (effects (snd (for_each ?calls
                 (\<lambda>(now, client). addClient now client) initial)))"
    by blast
  then have d: "map_of (clients (snd (for_each ?calls (\<lambda>(now, client). addClient now client) initial)))
            ''c1'' = None"
    and e: "End 1 \<in> set (effects (snd (for_each ?calls
                 (\<lambda>(now, client). addClient now client) initial)))"
    by (simp_all add: client_c1_def)
  from t reachable_demo_scenario have f: "distinct (map fst (clients demo_scenario))"
    by blast
  from a b c d e f reachable_demo_scenario show ?thesis by blast
qed

section \<open>The session cleanup\<close>





























end
